theory Spec2Isabelle
  imports Complex_Main
begin

section \<open>The PF watermark of MarkLLM (watermark/pf/pf.py)\<close>

text \<open>
  A shallow embedding of the classes \<^verbatim>\<open>PFConfig\<close>, \<^verbatim>\<open>PFUtils\<close> and \<^verbatim>\<open>PF\<close>.
  Python integers are \<open>int\<close>, lists are lists, an exception is the left summand of a
  result, and the mutable generator \<^verbatim>\<open>self.rng\<close> is threaded through as part of the
  instance. The numeric libraries (\<^verbatim>\<open>torch\<close>, \<^verbatim>\<open>scipy\<close>) are not code of the repository:
  what they compute is taken as a parameter (the record \<open>runtime\<close>), what they promise
  about shapes, ranges and exceptions is written out.
\<close>

subsection \<open>Python values and exceptions\<close>

datatype py_error = IndexError | AttributeError | UnboundLocalError | RuntimeError | TypeError

text \<open>
  Floating point values: the finite ones are read as real numbers (rounding is not
  modelled), the three special values are kept, since the code produces and compares them.
\<close>

datatype flt = Fin real | PInf | NInf | NaN

text \<open>A dynamically typed integer argument: a Python \<^verbatim>\<open>int\<close> or a 1-d \<^verbatim>\<open>LongTensor\<close>.\<close>

datatype pyval = PyInt int | LongTensor "int list"

text \<open>Arithmetic on \<^verbatim>\<open>int64\<close> tensors wraps around in two's complement.\<close>

definition wrap64 :: "int \<Rightarrow> int" where
  "wrap64 x = (x + 2 ^ 63) mod 2 ^ 64 - 2 ^ 63"

definition fits_int64 :: "int \<Rightarrow> bool" where
  "fits_int64 x = (- (2 ^ 63) \<le> x \<and> x < 2 ^ 63)"

text \<open>Python's \<^verbatim>\<open>xs[:n]\<close>: a negative \<open>n\<close> counts from the end.\<close>

definition py_take :: "int \<Rightarrow> 'a list \<Rightarrow> 'a list" where
  "py_take n xs = (if 0 \<le> n then take (nat n) xs else take (length xs - nat (- n)) xs)"

text \<open>Python's \<^verbatim>\<open>xs[a:b]\<close> for indices that are not negative.\<close>

definition py_slice :: "'a list \<Rightarrow> nat \<Rightarrow> nat \<Rightarrow> 'a list" where
  "py_slice xs a b = take (b - a) (drop a xs)"

subsection \<open>The generator and the numeric runtime\<close>

text \<open>
  A \<^verbatim>\<open>torch.Generator\<close> is a deterministic stream: its state is the seed it was last
  given and the number of values drawn since.
\<close>

record gen =
  gseed :: int
  gpos :: nat

text \<open>
  What the libraries compute: \<open>uniform s k\<close> is the \<open>k\<close>-th value \<^verbatim>\<open>torch.rand\<close> draws
  from a generator seeded with \<open>s\<close>; \<open>randperm g n\<close> is \<^verbatim>\<open>torch.randperm(n)\<close> drawn from
  a generator in state \<open>g\<close>, with the state it leaves; \<open>gamma_ppf q k\<close> is
  \<^verbatim>\<open>scipy.stats.gamma.ppf(q, a=k, scale=1)\<close>; \<open>argsort_desc\<close> is the index permutation
  of \<^verbatim>\<open>torch.sort(..., descending=True)\<close>.
\<close>

record runtime =
  uniform :: "int \<Rightarrow> nat \<Rightarrow> real"
  randperm :: "gen \<Rightarrow> nat \<Rightarrow> int list \<times> gen"
  gamma_ppf :: "real \<Rightarrow> nat \<Rightarrow> flt"
  argsort_desc :: "real list \<Rightarrow> nat list"

text \<open>
  \<^verbatim>\<open>Generator.manual_seed(seed)\<close>: a tensor is refused, an integer outside
  \<open>[-2^63, 2^64 - 1]\<close> raises, a negative one is read as the unsigned 64-bit value of
  its two's complement; the stream restarts.
\<close>

definition manual_seed :: "pyval \<Rightarrow> py_error + gen" where
  "manual_seed v =
     (case v of
        LongTensor t \<Rightarrow> Inl TypeError
      | PyInt s \<Rightarrow>
          if s < - (2 ^ 63) \<or> 2 ^ 64 - 1 < s then Inl RuntimeError
          else Inr \<lparr>gseed = (if s < 0 then 2 ^ 64 + s else s), gpos = 0\<rparr>)"

text \<open>\<^verbatim>\<open>torch.rand(n, generator=g)\<close>: the next \<open>n\<close> values of the stream.\<close>

definition rand :: "runtime \<Rightarrow> gen \<Rightarrow> nat \<Rightarrow> real list \<times> gen" where
  "rand R g n = (map (uniform R (gseed g)) [gpos g ..< gpos g + n], g\<lparr>gpos := gpos g + n\<rparr>)"

subsection \<open>Configuration and instance\<close>

record tokenizer =
  encode :: "string \<Rightarrow> int list"
  vocab_size :: nat
  pad_token_id :: "int option"
  eos_token_id :: "int option"

record PFConfig =
  payload :: int
  salt_key :: int
  ngram :: nat
  seed :: int
  seeding :: string
  max_seq_len :: int
  generation_tokenizer :: tokenizer

record PFUtils =
  config :: PFConfig
  pad_id :: "int option"
  eos_id :: "int option"
  hashtable :: "int list"
  rng :: gen

text \<open>
  \<^verbatim>\<open>PFUtils.__init__\<close>. The table is \<^verbatim>\<open>torch.randperm(1000003)\<close> with no generator
  argument: it is drawn from the process-wide default generator, whose state \<open>g\<close> the
  constructor reads and advances.
\<close>

definition PFUtils_init :: "runtime \<Rightarrow> PFConfig \<Rightarrow> gen \<Rightarrow> (py_error + PFUtils) \<times> gen" where
  "PFUtils_init R c g =
     (let tok = generation_tokenizer c;
          pad = (if pad_token_id tok \<noteq> None then pad_token_id tok else eos_token_id tok);
          eos = eos_token_id tok;
          (table, g') = randperm R g 1000003
      in (case manual_seed (PyInt (seed c)) of
            Inl e \<Rightarrow> (Inl e, g')
          | Inr r \<Rightarrow>
              (Inr \<lparr>config = c, pad_id = pad, eos_id = eos, hashtable = table, rng = r\<rparr>, g')))"

subsection \<open>Hashing a context window\<close>

text \<open>
  \<^verbatim>\<open>hashint\<close>: \<^verbatim>\<open>self.hashtable[integer_tensor.cpu() % len(self.hashtable)]\<close>. A Python
  \<^verbatim>\<open>int\<close> has no method \<^verbatim>\<open>cpu\<close>; the remainder takes the sign of the divisor.
\<close>

definition hashint :: "PFUtils \<Rightarrow> pyval \<Rightarrow> py_error + pyval" where
  "hashint self v =
     (case v of
        PyInt n \<Rightarrow> Inl AttributeError
      | LongTensor t \<Rightarrow>
          if length (hashtable self) = 0 then Inl RuntimeError
          else Inr (LongTensor
                 (map (\<lambda>x. hashtable self ! nat (x mod int (length (hashtable self)))) t)))"

text \<open>The loop of the \<^verbatim>\<open>'hash'\<close> strategy, one token per step.\<close>

fun hash_loop :: "int \<Rightarrow> int \<Rightarrow> int list \<Rightarrow> int" where
  "hash_loop salt s [] = s"
| "hash_loop salt s (i # input_ids) =
     hash_loop salt ((s * salt + i) mod (2 ^ 64 - 1)) input_ids"

text \<open>\<^verbatim>\<open>salt_key * input_ids\<close>: a scalar that does not fit \<^verbatim>\<open>int64\<close> is refused.\<close>

definition scalar_mul :: "int \<Rightarrow> int list \<Rightarrow> py_error + pyval" where
  "scalar_mul k t =
     (if fits_int64 k then Inr (LongTensor (map (\<lambda>x. wrap64 (k * x)) t)) else Inl RuntimeError)"

text \<open>\<^verbatim>\<open>torch.min(t).item()\<close>: an empty tensor has no minimum.\<close>

definition tensor_min :: "pyval \<Rightarrow> py_error + pyval" where
  "tensor_min v =
     (case v of
        PyInt n \<Rightarrow> Inl TypeError
      | LongTensor t \<Rightarrow> (case t of [] \<Rightarrow> Inl RuntimeError | x # xs \<Rightarrow> Inr (PyInt (fold min xs x))))"

text \<open>
  \<^verbatim>\<open>get_seed_rng\<close>. The token ids of \<open>input_ids\<close> are those of an \<^verbatim>\<open>int64\<close> tensor.
  With a seeding that is none of the four names no branch assigns \<^verbatim>\<open>seed\<close>.
\<close>

definition get_seed_rng :: "PFUtils \<Rightarrow> int list \<Rightarrow> py_error + pyval" where
  "get_seed_rng self input_ids =
     (let c = config self in
      if seeding c = ''hash'' then Inr (PyInt (hash_loop (salt_key c) (seed c) input_ids))
      else if seeding c = ''additive'' then
        hashint self (PyInt (salt_key c * wrap64 (sum_list input_ids)))
      else if seeding c = ''skip'' then
        (case input_ids of
           [] \<Rightarrow> Inl IndexError
         | i # rest \<Rightarrow> hashint self (PyInt (salt_key c * i)))
      else if seeding c = ''min'' then
        (case scalar_mul (salt_key c) input_ids of
           Inl e \<Rightarrow> Inl e
         | Inr t \<Rightarrow> (case hashint self t of Inl e \<Rightarrow> Inl e | Inr h \<Rightarrow> tensor_min h))
      else Inl UnboundLocalError)"

subsection \<open>Floating point operations\<close>

definition flog :: "real \<Rightarrow> flt" where
  "flog r = (if 0 < r then Fin (ln r) else if r = 0 then NInf else NaN)"

fun flog_f :: "flt \<Rightarrow> flt" where
  "flog_f (Fin r) = flog r"
| "flog_f PInf = PInf"
| "flog_f NInf = NaN"
| "flog_f NaN = NaN"

fun fneg :: "flt \<Rightarrow> flt" where
  "fneg (Fin r) = Fin (- r)"
| "fneg PInf = NInf"
| "fneg NInf = PInf"
| "fneg NaN = NaN"

fun fadd :: "flt \<Rightarrow> flt \<Rightarrow> flt" where
  "fadd (Fin a) (Fin b) = Fin (a + b)"
| "fadd NaN y = NaN"
| "fadd x NaN = NaN"
| "fadd PInf NInf = NaN"
| "fadd NInf PInf = NaN"
| "fadd PInf y = PInf"
| "fadd x PInf = PInf"
| "fadd NInf y = NInf"
| "fadd x NInf = NInf"

definition fsub :: "flt \<Rightarrow> flt \<Rightarrow> flt" where
  "fsub x y = fadd x (fneg y)"

text \<open>\<open>x > y\<close>: every comparison with a NaN is false.\<close>

fun fgt :: "flt \<Rightarrow> flt \<Rightarrow> bool" where
  "fgt (Fin a) (Fin b) = (b < a)"
| "fgt NaN y = False"
| "fgt x NaN = False"
| "fgt PInf PInf = False"
| "fgt PInf y = True"
| "fgt x PInf = False"
| "fgt NInf y = False"
| "fgt x NInf = True"

text \<open>The quotient of two finite values.\<close>

definition fdiv :: "real \<Rightarrow> real \<Rightarrow> flt" where
  "fdiv a b =
     (if b \<noteq> 0 then Fin (a / b)
      else if a = 0 then NaN else if 0 < a then PInf else NInf)"

text \<open>
  \<^verbatim>\<open>torch.roll(x, s)\<close>: the element at index \<open>i\<close> moves to index
  \<open>(i + s) mod n\<close>; an empty tensor stays empty.
\<close>

definition roll :: "int \<Rightarrow> 'a list \<Rightarrow> 'a list" where
  "roll s xs = (if xs = [] then [] else rotate (nat ((- s) mod int (length xs))) xs)"

subsection \<open>Scoring one token\<close>

text \<open>
  \<^verbatim>\<open>score_tok\<close>: seed the generator with the hash of the window, draw one value per
  vocabulary entry, replace exact zeros, take \<^verbatim>\<open>-rs.log().roll(-token_id)\<close>. The
  instance is returned with its generator advanced.
\<close>

definition score_tok ::
  "runtime \<Rightarrow> PFUtils \<Rightarrow> int list \<Rightarrow> int \<Rightarrow> (py_error + flt list) \<times> PFUtils" where
  "score_tok R self ngram_tokens token_id =
     (case get_seed_rng self ngram_tokens of
        Inl e \<Rightarrow> (Inl e, self)
      | Inr s \<Rightarrow>
          (case manual_seed s of
             Inl e \<Rightarrow> (Inl e, self)
           | Inr g \<Rightarrow>
               (let (rs, g') = rand R g (vocab_size (generation_tokenizer (config self)));
                    rs = map (\<lambda>r. if r = 0 then 1 / 10000 else r) rs;
                    scores = map fneg (roll (- token_id) (map flog rs))
                in (Inr scores, self\<lparr>rng := g'\<rparr>))))"

subsection \<open>Threshold\<close>

definition get_threshold :: "runtime \<Rightarrow> PFUtils \<Rightarrow> nat \<Rightarrow> real \<Rightarrow> flt" where
  "get_threshold R self n_tokens alpha =
     (if n_tokens \<le> ngram (config self) then PInf
      else (let k = n_tokens - ngram (config self) in gamma_ppf R (1 - alpha) k))"

subsection \<open>Scoring the positions of each text\<close>

text \<open>
  The inner loop of \<^verbatim>\<open>get_scores_by_t\<close> over \<^verbatim>\<open>range(start_pos, total_len)\<close>, with
  the set \<^verbatim>\<open>seen_ntuples\<close>, the list \<^verbatim>\<open>rts\<close> and the instance as its state. An
  exception of \<^verbatim>\<open>score_tok\<close> ends the loop.
\<close>

fun score_loop ::
  "runtime \<Rightarrow> string \<Rightarrow> int \<Rightarrow> int list \<Rightarrow> nat list \<Rightarrow> int list set \<Rightarrow> flt list list \<Rightarrow> PFUtils
    \<Rightarrow> py_error + (flt list list \<times> PFUtils)" where
  "score_loop R scoring_method payload_max toks [] seen_ntuples rts self = Inr (rts, self)"
| "score_loop R scoring_method payload_max toks (cur_pos # rest) seen_ntuples rts self =
     (let ngram_tokens = py_slice toks (cur_pos - ngram (config self)) cur_pos in
      if scoring_method = ''v1'' then
        (let tup_for_unique = ngram_tokens in
         if tup_for_unique \<in> seen_ntuples
         then score_loop R scoring_method payload_max toks rest seen_ntuples rts self
         else (case score_tok R self ngram_tokens (toks ! cur_pos) of
                 (Inl e, self') \<Rightarrow> Inl e
               | (Inr rt, self') \<Rightarrow>
                   score_loop R scoring_method payload_max toks rest
                     (insert tup_for_unique seen_ntuples) (rts @ [py_take (payload_max + 1) rt]) self'))
      else if scoring_method = ''v2'' then
        (let tup_for_unique = ngram_tokens @ py_slice toks cur_pos (cur_pos + 1) in
         if tup_for_unique \<in> seen_ntuples
         then score_loop R scoring_method payload_max toks rest seen_ntuples rts self
         else (case score_tok R self ngram_tokens (toks ! cur_pos) of
                 (Inl e, self') \<Rightarrow> Inl e
               | (Inr rt, self') \<Rightarrow>
                   score_loop R scoring_method payload_max toks rest
                     (insert tup_for_unique seen_ntuples) (rts @ [py_take (payload_max + 1) rt]) self'))
      else (case score_tok R self ngram_tokens (toks ! cur_pos) of
              (Inl e, self') \<Rightarrow> Inl e
            | (Inr rt, self') \<Rightarrow>
                score_loop R scoring_method payload_max toks rest
                  seen_ntuples (rts @ [py_take (payload_max + 1) rt]) self'))"

text \<open>The outer loop of \<^verbatim>\<open>get_scores_by_t\<close> over the texts, already tokenized.\<close>

fun texts_loop ::
  "runtime \<Rightarrow> string \<Rightarrow> int \<Rightarrow> int list list \<Rightarrow> flt list list list \<Rightarrow> PFUtils
    \<Rightarrow> py_error + (flt list list list \<times> PFUtils)" where
  "texts_loop R scoring_method payload_max [] score_lists self = Inr (score_lists, self)"
| "texts_loop R scoring_method payload_max (toks # rest) score_lists self =
     (let total_len = length toks;
          start_pos = ngram (config self) + 1
      in case score_loop R scoring_method payload_max toks [start_pos ..< total_len] {} [] self of
           Inl e \<Rightarrow> Inl e
         | Inr (rts, self') \<Rightarrow>
             texts_loop R scoring_method payload_max rest (score_lists @ [rts]) self')"

definition get_scores_by_t ::
  "runtime \<Rightarrow> PFUtils \<Rightarrow> string list \<Rightarrow> string \<Rightarrow> int option \<Rightarrow> int
    \<Rightarrow> py_error + (flt list list list \<times> PFUtils)" where
  "get_scores_by_t R self texts scoring_method ntoks_max payload_max =
     (let tokens_id = map (encode (generation_tokenizer (config self))) texts;
          tokens_id = (case ntoks_max of
                         None \<Rightarrow> tokens_id
                       | Some m \<Rightarrow> map (py_take m) tokens_id)
      in texts_loop R scoring_method payload_max tokens_id [] self)"

subsection \<open>Aggregation\<close>

text \<open>What \<^verbatim>\<open>sum\<close> adds up: the Python integer it starts from, and tensors.\<close>

datatype pynum = PyNum int | Tensor "flt list"

text \<open>
  \<^verbatim>\<open>+\<close>: a scalar is added to every entry; two 1-d tensors are added entry by entry,
  one of size 1 is broadcast, other sizes do not match.
\<close>

fun py_add :: "pynum \<Rightarrow> pynum \<Rightarrow> py_error + pynum" where
  "py_add (PyNum a) (PyNum b) = Inr (PyNum (a + b))"
| "py_add (PyNum a) (Tensor w) = Inr (Tensor (map (fadd (Fin (real_of_int a))) w))"
| "py_add (Tensor v) (PyNum b) = Inr (Tensor (map (\<lambda>x. fadd x (Fin (real_of_int b))) v))"
| "py_add (Tensor v) (Tensor w) =
     (if length v = length w then Inr (Tensor (map2 fadd v w))
      else if length v = 1 then Inr (Tensor (map (fadd (v ! 0)) w))
      else if length w = 1 then Inr (Tensor (map (\<lambda>x. fadd x (w ! 0)) v))
      else Inl RuntimeError)"

text \<open>Python's \<^verbatim>\<open>sum\<close>: a left-to-right loop from the start value.\<close>

fun py_sum :: "pynum \<Rightarrow> pynum list \<Rightarrow> py_error + pynum" where
  "py_sum acc [] = Inr acc"
| "py_sum acc (x # xs) = (case py_add acc x of Inl e \<Rightarrow> Inl e | Inr acc' \<Rightarrow> py_sum acc' xs)"

fun get_scores_loop :: "flt list list list \<Rightarrow> pynum list \<Rightarrow> py_error + pynum list" where
  "get_scores_loop [] test_scores = Inr test_scores"
| "get_scores_loop (scores # rest) test_scores =
     (if length scores = 0 then get_scores_loop rest (test_scores @ [PyNum 0])
      else (case py_sum (PyNum 0) (map Tensor scores) of
              Inl e \<Rightarrow> Inl e
            | Inr aggregated_score \<Rightarrow> get_scores_loop rest (test_scores @ [aggregated_score])))"

definition get_scores :: "flt list list list \<Rightarrow> py_error + pynum list" where
  "get_scores score_lists = get_scores_loop score_lists []"

subsection \<open>Detection\<close>

text \<open>
  \<^verbatim>\<open>score[0] > threshold\<close> as the condition of a conditional expression: a tensor
  comparison is a truth value only when it has exactly one entry.
\<close>

fun py_gt :: "pynum \<Rightarrow> flt \<Rightarrow> py_error + bool" where
  "py_gt (PyNum a) th = Inr (fgt (Fin (real_of_int a)) th)"
| "py_gt (Tensor v) th = (case v of [x] \<Rightarrow> Inr (fgt x th) | _ \<Rightarrow> Inl RuntimeError)"

text \<open>
  The local variables of \<^verbatim>\<open>detect_watermark\<close> before its last line: \<^verbatim>\<open>score[0]\<close>,
  \<^verbatim>\<open>threshold\<close>, and the instance as the scoring left it. The argument
  \<open>scoring_method\<close> is received and not passed on: \<^verbatim>\<open>get_scores_by_t\<close> is called with its
  defaults \<^verbatim>\<open>"none"\<close> and \<^verbatim>\<open>payload_max = 0\<close>.
\<close>

definition detect_locals ::
  "runtime \<Rightarrow> PFUtils \<Rightarrow> string list \<Rightarrow> real \<Rightarrow> string \<Rightarrow> int option
    \<Rightarrow> py_error + (pynum \<times> flt \<times> PFUtils)" where
  "detect_locals R self text alpha scoring_method ntoks_max =
     (case get_scores_by_t R self text ''none'' ntoks_max 0 of
        Inl e \<Rightarrow> Inl e
      | Inr (scores, self') \<Rightarrow>
          (case get_scores scores of
             Inl e \<Rightarrow> Inl e
           | Inr score \<Rightarrow>
               (case scores of
                  [] \<Rightarrow> Inl IndexError
                | scores0 # others \<Rightarrow>
                    (let threshold = get_threshold R self' (length scores0) alpha in
                     case score of
                       [] \<Rightarrow> Inl IndexError
                     | score0 # others' \<Rightarrow> Inr (score0, threshold, self')))))"

definition detect_watermark ::
  "runtime \<Rightarrow> PFUtils \<Rightarrow> string list \<Rightarrow> real \<Rightarrow> string \<Rightarrow> int option \<Rightarrow> py_error + int" where
  "detect_watermark R self text alpha scoring_method ntoks_max =
     (case detect_locals R self text alpha scoring_method ntoks_max of
        Inl e \<Rightarrow> Inl e
      | Inr (score0, threshold, self') \<Rightarrow>
          (case py_gt score0 threshold of
             Inl e \<Rightarrow> Inl e
           | Inr b \<Rightarrow> Inr (if b then 1 else 0)))"

subsection \<open>Sampling the next token\<close>

definition softmax :: "real list \<Rightarrow> real list" where
  "softmax xs = map (\<lambda>x. exp x / sum_list (map exp xs)) xs"

definition cumsum :: "real list \<Rightarrow> real list" where
  "cumsum xs = map (\<lambda>i. sum_list (take (Suc i) xs)) [0 ..< length xs]"

text \<open>
  \<^verbatim>\<open>torch.argmax\<close> along the last dimension: the first index of a greatest entry; a
  row of size 0 has none. \<open>lt\<close> is the strict order of the entries.
\<close>

fun argmax_scan :: "('a \<Rightarrow> 'a \<Rightarrow> bool) \<Rightarrow> nat \<Rightarrow> 'a \<Rightarrow> nat \<Rightarrow> 'a list \<Rightarrow> nat" where
  "argmax_scan lt best_i best i [] = best_i"
| "argmax_scan lt best_i best i (x # xs) =
     (if lt best x then argmax_scan lt i x (Suc i) xs
      else argmax_scan lt best_i best (Suc i) xs)"

definition argmax :: "('a \<Rightarrow> 'a \<Rightarrow> bool) \<Rightarrow> 'a list \<Rightarrow> py_error + nat" where
  "argmax lt row = (case row of [] \<Rightarrow> Inl IndexError | x # xs \<Rightarrow> Inr (argmax_scan lt 0 x 1 xs))"

fun argmax_rows :: "('a \<Rightarrow> 'a \<Rightarrow> bool) \<Rightarrow> 'a list list \<Rightarrow> py_error + nat list" where
  "argmax_rows lt [] = Inr []"
| "argmax_rows lt (row # rows) =
     (case argmax lt row of
        Inl e \<Rightarrow> Inl e
      | Inr i \<Rightarrow> (case argmax_rows lt rows of Inl e \<Rightarrow> Inl e | Inr js \<Rightarrow> Inr (i # js)))"

text \<open>The order \<^verbatim>\<open>torch.argmax\<close> uses on floating point values: a NaN is greatest.\<close>

fun fless :: "flt \<Rightarrow> flt \<Rightarrow> bool" where
  "fless NaN y = False"
| "fless x NaN = True"
| "fless x y = fgt y x"

text \<open>
  Lines 77 to 83 for one row of \<^verbatim>\<open>logits\<close>: the sorted, masked, renormalised
  probabilities in logarithm, and the index permutation of the sort.
\<close>

definition nucleus :: "runtime \<Rightarrow> real \<Rightarrow> real \<Rightarrow> real list \<Rightarrow> flt list \<times> nat list" where
  "nucleus R temperature top_p row =
     (let probs = softmax (map (\<lambda>x. x / temperature) row);
          probs_idx = argsort_desc R probs;
          probs_sort = map (\<lambda>i. probs ! i) probs_idx;
          probs_sum = cumsum probs_sort;
          probs_sort = map2 (\<lambda>s p. if s - p > top_p then 0 else p) probs_sum probs_sort;
          total = sum_list probs_sort;
          log_probs = map (\<lambda>p. flog_f (fdiv p total)) probs_sort
      in (log_probs, probs_idx))"

text \<open>
  The loop over the batch (lines 85 to 95): \<open>ii\<close> counts the rows of \<^verbatim>\<open>ngram_tokens\<close>
  done so far; each row re-seeds the generator and draws a fresh vector.
\<close>

fun watermark_loop ::
  "runtime \<Rightarrow> int list list \<Rightarrow> nat \<Rightarrow> nat list list \<Rightarrow> flt list list \<Rightarrow> PFUtils
    \<Rightarrow> py_error + (flt list list \<times> PFUtils)" where
  "watermark_loop R [] ii probs_idx log_probs self = Inr (log_probs, self)"
| "watermark_loop R (ngram_tokens_ii # rest) ii probs_idx log_probs self =
     (case get_seed_rng self ngram_tokens_ii of
        Inl e \<Rightarrow> Inl e
      | Inr s \<Rightarrow>
          (case manual_seed s of
             Inl e \<Rightarrow> Inl e
           | Inr g \<Rightarrow>
               (let (rs, g') = rand R g (vocab_size (generation_tokenizer (config self)));
                    rs = roll (- payload (config self)) rs
                in if length probs_idx \<le> ii then Inl IndexError
                   else if list_ex (\<lambda>j. length rs \<le> j) (probs_idx ! ii) then Inl IndexError
                   else (let rs = map (\<lambda>j. rs ! j) (probs_idx ! ii) in
                         watermark_loop R rest (Suc ii) probs_idx
                           (log_probs[ii := map2 fsub (log_probs ! ii) (map flog rs)])
                           (self\<lparr>rng := g'\<rparr>)))))"

text \<open>\<^verbatim>\<open>torch.gather(probs_idx, -1, next_token)\<close>: the chosen sorted position of each row, as a vocabulary index.\<close>

definition gather :: "nat list list \<Rightarrow> nat list \<Rightarrow> nat list" where
  "gather probs_idx next_token = map2 (\<lambda>row j. row ! j) probs_idx next_token"

definition sample_next ::
  "runtime \<Rightarrow> PFUtils \<Rightarrow> real list list \<Rightarrow> int list list \<Rightarrow> real \<Rightarrow> real
    \<Rightarrow> py_error + (nat list \<times> PFUtils)" where
  "sample_next R self logits ngram_tokens temperature top_p =
     (if temperature > 0 then
        (let sorted = map (nucleus R temperature top_p) logits;
             log_probs = map fst sorted;
             probs_idx = map snd sorted
         in case watermark_loop R ngram_tokens 0 probs_idx log_probs self of
              Inl e \<Rightarrow> Inl e
            | Inr (log_probs', self') \<Rightarrow>
                (case argmax_rows fless log_probs' of
                   Inl e \<Rightarrow> Inl e
                 | Inr next_token \<Rightarrow> Inr (gather probs_idx next_token, self')))
      else (case argmax_rows (<) logits of
              Inl e \<Rightarrow> Inl e
            | Inr next_token \<Rightarrow> Inr (next_token, self)))"

subsection \<open>The positions a scoring method keeps\<close>

text \<open>
  Two notions the proofs use to describe the inner loop. \<open>dedup_key\<close> is the tuple
  \<^verbatim>\<open>tup_for_unique\<close> that the method looks up at a position, if it looks one up;
  \<open>scored_positions\<close> are the positions of the loop that are not skipped.
\<close>

definition dedup_key :: "string \<Rightarrow> nat \<Rightarrow> int list \<Rightarrow> nat \<Rightarrow> int list option" where
  "dedup_key scoring_method n toks cur_pos =
     (if scoring_method = ''v1'' then Some (py_slice toks (cur_pos - n) cur_pos)
      else if scoring_method = ''v2''
      then Some (py_slice toks (cur_pos - n) cur_pos @ py_slice toks cur_pos (cur_pos + 1))
      else None)"

fun scored_positions :: "string \<Rightarrow> nat \<Rightarrow> int list \<Rightarrow> nat list \<Rightarrow> int list set \<Rightarrow> nat list" where
  "scored_positions scoring_method n toks [] seen_ntuples = []"
| "scored_positions scoring_method n toks (cur_pos # rest) seen_ntuples =
     (case dedup_key scoring_method n toks cur_pos of
        None \<Rightarrow> cur_pos # scored_positions scoring_method n toks rest seen_ntuples
      | Some k \<Rightarrow>
          if k \<in> seen_ntuples then scored_positions scoring_method n toks rest seen_ntuples
          else cur_pos # scored_positions scoring_method n toks rest (insert k seen_ntuples))"

subsection \<open>A concrete instance\<close>

text \<open>
  The configuration of the end-to-end example (\<^verbatim>\<open>ngram = 4\<close>, \<^verbatim>\<open>seed = 42\<close>,
  \<^verbatim>\<open>salt_key = 15485863\<close>, \<^verbatim>\<open>seeding = "hash"\<close>, \<^verbatim>\<open>payload = 0\<close>) with a toy tokenizer of
  four tokens (one token per character: its code modulo 4), and a runtime that can be
  evaluated: every uniform draw is \<open>exp (-2)\<close>, the permutation is a rotation of
  \<^verbatim>\<open>range(n)\<close> by the generator's state, the sort is a stable descending sort, and the
  quantile is the stand-in \<open>k + 4\<close>.
\<close>

definition example_tokenizer :: tokenizer where
  "example_tokenizer =
     \<lparr>encode = map (\<lambda>c. int (of_char c) mod 4), vocab_size = 4,
      pad_token_id = None, eos_token_id = Some 0\<rparr>"

definition example_config :: PFConfig where
  "example_config =
     \<lparr>payload = 0, salt_key = 15485863, ngram = 4, seed = 42, seeding = ''hash'',
      max_seq_len = 1024, generation_tokenizer = example_tokenizer\<rparr>"

definition example_randperm :: "gen \<Rightarrow> nat \<Rightarrow> int list \<times> gen" where
  "example_randperm g n =
     (map (\<lambda>i. (int i + gseed g + int (gpos g)) mod int n) [0 ..< n],
      g\<lparr>gpos := gpos g + (n - 1)\<rparr>)"

definition example_runtime :: runtime where
  "example_runtime =
     \<lparr>uniform = (\<lambda>s k. exp (- 2)),
      randperm = example_randperm,
      gamma_ppf = (\<lambda>q k. Fin (real k + 4)),
      argsort_desc = (\<lambda>xs. sort_key (\<lambda>i. - (xs ! i)) [0 ..< length xs])\<rparr>"

text \<open>A state of the default generator, the table drawn from it, and the instance built there.\<close>

definition example_default_generator :: gen where
  "example_default_generator = \<lparr>gseed = 0, gpos = 0\<rparr>"

definition example_table :: "int list" where
  "example_table = fst (example_randperm example_default_generator 1000003)"

definition example_utils :: PFUtils where
  "example_utils =
     \<lparr>config = example_config, pad_id = Some 0, eos_id = Some 0,
      hashtable = example_table, rng = \<lparr>gseed = 42, gpos = 0\<rparr>\<rparr>"

text \<open>
  The instance that a second construction in the same process builds: the default
  generator is where the first construction left it.
\<close>

definition example_second_table :: "int list" where
  "example_second_table =
     fst (example_randperm (snd (example_randperm example_default_generator 1000003)) 1000003)"

definition example_second_utils :: PFUtils where
  "example_second_utils = example_utils\<lparr>hashtable := example_second_table\<rparr>"

section \<open>Properties\<close>

subsection \<open>Evaluation on the concrete instance\<close>

lemmas example_defs =
  example_utils_def example_config_def example_runtime_def example_tokenizer_def

lemmas detect_defs =
  detect_watermark_def detect_locals_def get_scores_by_t_def get_scores_def get_threshold_def
  score_tok_def get_seed_rng_def manual_seed_def rand_def roll_def flog_def py_slice_def
  py_take_def

lemma rotate_numeral: "rotate (numeral k) xs = rotate (pred_numeral k) (rotate1 xs)"
  by (simp add: numeral_eq_Suc rotate_def funpow_swap1)

subsection \<open>The context hash\<close>

lemma hash_loop_foldl:
  "hash_loop salt s input_ids = foldl (\<lambda>s t. (s * salt + t) mod (2 ^ 64 - 1)) s input_ids"
  by (induction input_ids arbitrary: s) simp_all

lemma hash_loop_range:
  "input_ids \<noteq> [] \<Longrightarrow>
     0 \<le> hash_loop salt s input_ids \<and> hash_loop salt s input_ids < 2 ^ 64 - 1"
proof (induction input_ids arbitrary: s)
  case Nil
  then show ?case by simp
next
  case (Cons i rest)
  show ?case
  proof (cases rest)
    case Nil
    then show ?thesis by simp
  next
    case (Cons j more)
    then show ?thesis using Cons.IH [of "(s * salt + i) mod (2 ^ 64 - 1)"] by simp
  qed
qed

text \<open>
  C7. Under the \<^verbatim>\<open>'hash'\<close> strategy the seed of a context window is the left-to-right
  fold from the base seed with the step \<open>seed = (seed * salt_key + t) mod (2^64 - 1)\<close>,
  computed on unbounded integers.
\<close>

theorem hash_seeding_is_exact_fold:
  assumes "seeding (config self) = ''hash''"
  shows "get_seed_rng self input_ids =
           Inr (PyInt (foldl (\<lambda>s t. (s * salt_key (config self) + t) mod (2 ^ 64 - 1))
                         (seed (config self)) input_ids))"
  using assms by (simp add: get_seed_rng_def hash_loop_foldl Let_def)

text \<open>
  At the example configuration the window \<open>[1, 2, 3, 0]\<close> and its reversal get different
  seeds: the fold is sensitive to the order. The third step multiplies a value above
  \<open>10^16\<close> by the salt, beyond 64 bits, and the result is still the exact remainder.
\<close>

theorem hash_seeding_is_exact_fold_witness:
  "seeding (config example_utils) = ''hash'' \<and>
   get_seed_rng example_utils [1, 2, 3, 0] = Inr (PyInt 4481735200407599061) \<and>
   get_seed_rng example_utils [0, 3, 2, 1] = Inr (PyInt 17029230230262763551)"
proof -
  have h: "seeding (config example_utils) = ''hash''"
    by (simp add: example_defs)
  show ?thesis
    using h hash_seeding_is_exact_fold [OF h, of "[1, 2, 3, 0]"]
      hash_seeding_is_exact_fold [OF h, of "[0, 3, 2, 1]"]
    by (simp add: example_defs)
qed

subsection \<open>The generator is the only state, and scoring does not read it\<close>

lemma hashint_rng: "hashint (self\<lparr>rng := g\<rparr>) v = hashint self v"
  by (simp add: hashint_def split: pyval.splits)

lemma get_seed_rng_rng: "get_seed_rng (self\<lparr>rng := g\<rparr>) ctx = get_seed_rng self ctx"
  by (simp add: get_seed_rng_def hashint_rng Let_def cong: if_cong list.case_cong sum.case_cong)

lemma score_tok_rng:
  "fst (score_tok R (self\<lparr>rng := g\<rparr>) ctx tok) = fst (score_tok R self ctx tok)"
  by (simp add: score_tok_def get_seed_rng_rng split: sum.splits prod.splits)

lemma score_tok_state: "\<exists>g. snd (score_tok R self ctx tok) = self\<lparr>rng := g\<rparr>"
proof (cases "fst (score_tok R self ctx tok)")
  case (Inl e)
  then have "snd (score_tok R self ctx tok) = self"
    by (auto simp: score_tok_def split: sum.splits prod.splits)
  then show ?thesis by (metis PFUtils.surjective PFUtils.update_convs(5))
next
  case (Inr rt)
  then show ?thesis
    by (auto simp: score_tok_def split: sum.splits prod.splits)
qed

lemma self_rng_id: "\<exists>g. (self :: PFUtils) = self\<lparr>rng := g\<rparr>"
  by (rule exI [of _ "rng self"]) simp

text \<open>
  C5. On one instance the context hasher gives the same seed for the same window
  whenever it is called, and so does the score vector of \<^verbatim>\<open>score_tok\<close> for the same
  window and token: neither depends on the state of the generator, which is all that a
  call changes. In particular a second call, on the instance as the first call left it,
  returns what the first returned.
\<close>

theorem context_hash_and_scores_are_deterministic:
  "get_seed_rng (self\<lparr>rng := g\<rparr>) ctx = get_seed_rng self ctx \<and>
   get_seed_rng (snd (score_tok R self ctx tok)) ctx = get_seed_rng self ctx \<and>
   fst (score_tok R (self\<lparr>rng := g\<rparr>) ctx tok) = fst (score_tok R self ctx tok) \<and>
   fst (score_tok R (snd (score_tok R self ctx tok)) ctx tok) = fst (score_tok R self ctx tok)"
proof -
  obtain g1 where g1: "snd (score_tok R self ctx tok) = self\<lparr>rng := g1\<rparr>"
    using score_tok_state by blast
  show ?thesis
    by (simp add: g1 get_seed_rng_rng score_tok_rng)
qed

subsection \<open>The inner loop of the scorer\<close>

text \<open>One step of the loop, with the three branches of the method folded into \<open>dedup_key\<close>.\<close>

lemma score_loop_step:
  "score_loop R sm pm toks (p # ps) seen rts self =
     (case dedup_key sm (ngram (config self)) toks p of
        None \<Rightarrow>
          (case score_tok R self (py_slice toks (p - ngram (config self)) p) (toks ! p) of
             (Inl e, self') \<Rightarrow> Inl e
           | (Inr rt, self') \<Rightarrow> score_loop R sm pm toks ps seen (rts @ [py_take (pm + 1) rt]) self')
      | Some k \<Rightarrow>
          if k \<in> seen then score_loop R sm pm toks ps seen rts self
          else (case score_tok R self (py_slice toks (p - ngram (config self)) p) (toks ! p) of
                  (Inl e, self') \<Rightarrow> Inl e
                | (Inr rt, self') \<Rightarrow>
                    score_loop R sm pm toks ps (insert k seen) (rts @ [py_take (pm + 1) rt]) self'))"
  by (simp add: dedup_key_def Let_def)

text \<open>
  When the loop returns, it has appended one score vector per position that was not
  skipped, and the instance differs from the one it started with in its generator only.
\<close>

lemma score_loop_count:
  "score_loop R sm pm toks ps seen rts self = Inr (rts', self') \<Longrightarrow>
     length rts' = length rts + length (scored_positions sm (ngram (config self)) toks ps seen)
     \<and> (\<exists>g. self' = self\<lparr>rng := g\<rparr>)"
proof (induction ps arbitrary: seen rts self)
  case Nil
  then show ?case using self_rng_id by simp
next
  case (Cons p ps)
  let ?n = "ngram (config self)"
  let ?st = "score_tok R self (py_slice toks (p - ?n) p) (toks ! p)"
  obtain g1 where g1: "snd ?st = self\<lparr>rng := g1\<rparr>"
    using score_tok_state by blast
  have cfg: "ngram (config (self\<lparr>rng := g1\<rparr>)) = ?n" by simp
  have upd: "\<And>g. \<exists>g'. self\<lparr>rng := g1\<rparr>\<lparr>rng := g\<rparr> = self\<lparr>rng := g'\<rparr>" by auto
  show ?case
  proof (cases "dedup_key sm ?n toks p")
    case None
    then obtain rt where st: "?st = (Inr rt, self\<lparr>rng := g1\<rparr>)"
      and rec: "score_loop R sm pm toks ps seen (rts @ [py_take (pm + 1) rt]) (self\<lparr>rng := g1\<rparr>) = Inr (rts', self')"
      using Cons.prems g1 unfolding score_loop_step
      by (auto split: prod.splits sum.splits)
    from Cons.IH [OF rec] None cfg upd show ?thesis by auto
  next
    case (Some k)
    show ?thesis
    proof (cases "k \<in> seen")
      case True
      with Some Cons.prems have rec: "score_loop R sm pm toks ps seen rts self = Inr (rts', self')"
        unfolding score_loop_step by simp
      from Cons.IH [OF rec] Some True show ?thesis by simp
    next
      case False
      with Some obtain rt where st: "?st = (Inr rt, self\<lparr>rng := g1\<rparr>)"
        and rec: "score_loop R sm pm toks ps (insert k seen) (rts @ [py_take (pm + 1) rt]) (self\<lparr>rng := g1\<rparr>) = Inr (rts', self')"
        using Cons.prems g1 unfolding score_loop_step
        by (auto split: prod.splits sum.splits)
      from Cons.IH [OF rec] Some False cfg upd show ?thesis by auto
    qed
  qed
qed

lemma scored_positions_none:
  "sm \<noteq> ''v1'' \<Longrightarrow> sm \<noteq> ''v2'' \<Longrightarrow> scored_positions sm n toks ps seen = ps"
  by (induction ps) (simp_all add: dedup_key_def)

lemma scored_positions_v1:
  "finite seen \<Longrightarrow>
     length (scored_positions ''v1'' n toks ps seen) =
       card (set (map (\<lambda>p. py_slice toks (p - n) p) ps) - seen)"
proof (induction ps arbitrary: seen)
  case Nil
  then show ?case by simp
next
  case (Cons p ps)
  let ?w = "py_slice toks (p - n) p"
  let ?W = "set (map (\<lambda>p. py_slice toks (p - n) p) ps)"
  show ?case
  proof (cases "?w \<in> seen")
    case True
    then have "insert ?w ?W - seen = ?W - seen" by auto
    with True Cons show ?thesis by (simp add: dedup_key_def)
  next
    case False
    have fin: "finite (?W - insert ?w seen)" by simp
    have "insert ?w ?W - seen = insert ?w (?W - insert ?w seen)" using False by auto
    moreover have "?w \<notin> ?W - insert ?w seen" by simp
    ultimately have "card (insert ?w ?W - seen) = Suc (card (?W - insert ?w seen))"
      using fin by (simp del: finite_Diff_insert)
    with False Cons.IH [of "insert ?w seen"] Cons.prems show ?thesis
      by (simp add: dedup_key_def)
  qed
qed

text \<open>
  Under \<^verbatim>\<open>'hash'\<close> seeding a non-empty window always scores: the seed lies in the range
  the generator accepts.
\<close>

lemma score_tok_hash_Inr:
  assumes "seeding (config self) = ''hash''" "ctx \<noteq> []"
  shows "\<exists>rt g. score_tok R self ctx tok = (Inr rt, self\<lparr>rng := g\<rparr>)"
proof -
  have "get_seed_rng self ctx = Inr (PyInt (hash_loop (salt_key (config self)) (seed (config self)) ctx))"
    using assms by (simp add: get_seed_rng_def Let_def)
  moreover obtain g where "manual_seed (PyInt (hash_loop (salt_key (config self)) (seed (config self)) ctx)) = Inr g"
    using hash_loop_range [OF assms(2), of "salt_key (config self)" "seed (config self)"]
    by (simp add: manual_seed_def)
  ultimately show ?thesis
    by (auto simp add: score_tok_def split: prod.splits)
qed

lemma window_nonempty: "0 < n \<Longrightarrow> n < p \<Longrightarrow> p < length toks \<Longrightarrow> py_slice toks (p - n) p \<noteq> []"
  by (simp add: py_slice_def)

lemma score_loop_hash_total:
  assumes "seeding (config self) = ''hash''" "0 < ngram (config self)"
    and "list_all (\<lambda>p. ngram (config self) < p \<and> p < length toks) ps"
  shows "\<exists>rts' g. score_loop R sm pm toks ps seen rts self = Inr (rts', self\<lparr>rng := g\<rparr>)"
  using assms
proof (induction ps arbitrary: seen rts self)
  case Nil
  then show ?case using self_rng_id by simp
next
  case (Cons p ps)
  let ?n = "ngram (config self)"
  have w: "py_slice toks (p - ?n) p \<noteq> []"
    using Cons.prems by (simp add: window_nonempty)
  obtain rt g1 where st: "score_tok R self (py_slice toks (p - ?n) p) (toks ! p) = (Inr rt, self\<lparr>rng := g1\<rparr>)"
    using score_tok_hash_Inr [OF Cons.prems(1) w] by blast
  have ih: "\<And>seen rts. \<exists>rts' g. score_loop R sm pm toks ps seen rts (self\<lparr>rng := g1\<rparr>) = Inr (rts', self\<lparr>rng := g\<rparr>)"
  proof -
    fix seen rts
    have "\<exists>rts' g. score_loop R sm pm toks ps seen rts (self\<lparr>rng := g1\<rparr>) = Inr (rts', self\<lparr>rng := g1\<rparr>\<lparr>rng := g\<rparr>)"
      by (rule Cons.IH) (use Cons.prems in simp_all)
    then show "\<exists>rts' g. score_loop R sm pm toks ps seen rts (self\<lparr>rng := g1\<rparr>) = Inr (rts', self\<lparr>rng := g\<rparr>)"
      by simp
  qed
  have ih0: "\<And>seen rts. \<exists>rts' g. score_loop R sm pm toks ps seen rts self = Inr (rts', self\<lparr>rng := g\<rparr>)"
    by (rule Cons.IH) (use Cons.prems in simp_all)
  show ?case
    unfolding score_loop_step using st ih ih0
    by (simp split: option.splits)
qed

subsection \<open>The loop over the texts\<close>

lemma texts_loop_append:
  "texts_loop R sm pm tks acc self = Inr (sl, s') \<Longrightarrow>
     \<exists>new g. sl = acc @ new \<and> length new = length tks \<and> s' = self\<lparr>rng := g\<rparr>"
proof (induction tks arbitrary: acc self)
  case Nil
  then show ?case using self_rng_id by simp
next
  case (Cons toks rest)
  from Cons.prems obtain rts s1 where
    sl: "score_loop R sm pm toks [ngram (config self) + 1 ..< length toks] {} [] self = Inr (rts, s1)"
    and rec: "texts_loop R sm pm rest (acc @ [rts]) s1 = Inr (sl, s')"
    by (auto simp: Let_def split: sum.splits)
  from score_loop_count [OF sl] obtain g1 where s1: "s1 = self\<lparr>rng := g1\<rparr>" by blast
  from Cons.IH [OF rec] obtain new g where "sl = (acc @ [rts]) @ new" "length new = length rest" "s' = s1\<lparr>rng := g\<rparr>"
    by blast
  with s1 show ?case by auto
qed

lemma texts_loop_Cons:
  assumes "texts_loop R sm pm (toks # rest) acc self = Inr (sl, s')"
  shows "\<exists>rts s1 more. score_loop R sm pm toks [ngram (config self) + 1 ..< length toks] {} [] self = Inr (rts, s1)
           \<and> sl = acc @ rts # more \<and> config s' = config self \<and> config s1 = config self"
proof -
  from assms obtain rts s1 where
    sl: "score_loop R sm pm toks [ngram (config self) + 1 ..< length toks] {} [] self = Inr (rts, s1)"
    and rec: "texts_loop R sm pm rest (acc @ [rts]) s1 = Inr (sl, s')"
    by (auto simp: Let_def split: sum.splits)
  from score_loop_count [OF sl] obtain g1 where s1: "s1 = self\<lparr>rng := g1\<rparr>" by blast
  from texts_loop_append [OF rec] obtain new g where "sl = (acc @ [rts]) @ new" "s' = s1\<lparr>rng := g\<rparr>"
    by blast
  with s1 sl show ?thesis by auto
qed

lemma single_text_scores:
  assumes "seeding (config self) = ''hash''" "0 < ngram (config self)"
  shows "map_sum id (\<lambda>r. map length (fst r)) (texts_loop R sm pm [toks] [] self) =
           Inr [length (scored_positions sm (ngram (config self)) toks
                          [ngram (config self) + 1 ..< length toks] {})]"
proof -
  let ?ps = "[ngram (config self) + 1 ..< length toks]"
  have "list_all (\<lambda>p. ngram (config self) < p \<and> p < length toks) ?ps"
    by (simp add: list_all_iff)
  from score_loop_hash_total [OF assms this, of R sm pm "{}" "[]"] obtain rts' g where
    sl: "score_loop R sm pm toks ?ps {} [] self = Inr (rts', self\<lparr>rng := g\<rparr>)" by blast
  from score_loop_count [OF sl] have "length rts' = length (scored_positions sm (ngram (config self)) toks ?ps {})"
    by simp
  with sl show ?thesis by (simp add: Let_def)
qed

subsection \<open>A phrase of four tokens, ten times\<close>

lemma phrase10: "concat (replicate 10 [a, b, c, d]) =
  [a,b,c,d, a,b,c,d, a,b,c,d, a,b,c,d, a,b,c,d, a,b,c,d, a,b,c,d, a,b,c,d, a,b,c,d, a,b,c,d]"
  by (simp add: numeral_eq_Suc)

lemma phrase_windows:
  "set (map (\<lambda>p. py_slice (concat (replicate 10 [a, b, c, d])) (p - 4) p) [5 ..< 40]) =
     {[a, b, c, d], [b, c, d, a], [c, d, a, b], [d, a, b, c]}"
  unfolding phrase10 by (simp add: py_slice_def upt_rec) blast

lemma repeated_phrase_counts:
  assumes "ngram (config self) = 4" "seeding (config self) = ''hash''"
    and "encode (generation_tokenizer (config self)) text = concat (replicate 10 [a, b, c, d])"
  shows "map_sum id (\<lambda>r. map length (fst r)) (get_scores_by_t R self [text] ''v1'' None pm) =
           Inr [card {[a, b, c, d], [b, c, d, a], [c, d, a, b], [d, a, b, c]}]"
    and "map_sum id (\<lambda>r. map length (fst r)) (get_scores_by_t R self [text] ''none'' None pm) =
           Inr [35]"
proof -
  define T where "T = concat (replicate 10 [a, b, c, d])"
  define P where "P = [ngram (config self) + 1 ..< length T]"
  have n: "0 < ngram (config self)" using assms(1) by simp
  have len: "length T = 40" by (simp add: T_def phrase10)
  have P: "P = [5 ..< 40]" by (simp add: P_def len assms(1))
  have gs: "\<And>sm. get_scores_by_t R self [text] sm None pm = texts_loop R sm pm [T] [] self"
    by (simp add: get_scores_by_t_def assms(3) T_def)
  have cnt: "\<And>sm. map_sum id (\<lambda>r. map length (fst r)) (texts_loop R sm pm [T] [] self) =
                 Inr [length (scored_positions sm 4 T P {})]"
    unfolding P_def using single_text_scores [OF assms(2) n, of R _ pm T]
    by (simp only: assms(1))
  have "set (map (\<lambda>p. py_slice T (p - 4) p) P) = {[a, b, c, d], [b, c, d, a], [c, d, a, b], [d, a, b, c]}"
    unfolding P T_def by (rule phrase_windows)
  then have v1: "length (scored_positions ''v1'' 4 T P {}) =
                   card {[a, b, c, d], [b, c, d, a], [c, d, a, b], [d, a, b, c]}"
    using scored_positions_v1 [of "{}" 4 T P] by simp
  have "length P = 35" unfolding P by simp
  then have none: "length (scored_positions ''none'' 4 T P {}) = 35"
    by (simp add: scored_positions_none)
  show "map_sum id (\<lambda>r. map length (fst r)) (get_scores_by_t R self [text] ''v1'' None pm) =
           Inr [card {[a, b, c, d], [b, c, d, a], [c, d, a, b], [d, a, b, c]}]"
    by (simp only: gs cnt v1)
  show "map_sum id (\<lambda>r. map length (fst r)) (get_scores_by_t R self [text] ''none'' None pm) =
           Inr [35]"
    by (simp only: gs cnt none)
qed

lemma enc10: "encode (generation_tokenizer (config example_utils)) (concat (replicate 10 ''abcd'')) = concat (replicate 10 [1, 2, 3, 0])"
  by (simp add: example_defs numeral_eq_Suc)

lemma enc10a: "encode (generation_tokenizer (config example_utils)) (concat (replicate 10 ''aaaa'')) = concat (replicate 10 [1, 1, 1, 1])"
  by (simp add: example_defs numeral_eq_Suc)

text \<open>How many different rotations a phrase of four tokens has.\<close>

lemma rotations_card_distinct:
  "distinct [a, b, c, d] \<Longrightarrow>
     card {[a, b, c, d], [b, c, d, a], [c, d, a, b], [d, a, b, c]} = 4"
  by simp

lemma rotations_card_equal:
  "a = b \<Longrightarrow> b = c \<Longrightarrow> c = d \<Longrightarrow>
     card {[a, b, c, d], [b, c, d, a], [c, d, a, b], [d, a, b, c]} = 1"
  by simp

text \<open>
  C3 (amended). For a text whose tokens are one 4-token phrase repeated 10 times, with
  \<^verbatim>\<open>ngram = 4\<close> and \<^verbatim>\<open>'hash'\<close> seeding: \<^verbatim>\<open>scoring_method = "v1"\<close> scores one position per
  distinct context window, that is as many positions as the phrase has distinct cyclic
  rotations (four when its tokens are pairwise different, one when they are all equal);
  \<^verbatim>\<open>"none"\<close> scores each of the 35 positions from \<^verbatim>\<open>ngram + 1\<close> to the end.
\<close>

theorem repeated_phrase_scored_positions:
  assumes "ngram (config self) = 4" "seeding (config self) = ''hash''"
    and "encode (generation_tokenizer (config self)) text = concat (replicate 10 [a, b, c, d])"
  shows "map_sum id (\<lambda>r. map length (fst r)) (get_scores_by_t R self [text] ''v1'' None pm) =
           Inr [card {[a, b, c, d], [b, c, d, a], [c, d, a, b], [d, a, b, c]}] \<and>
         map_sum id (\<lambda>r. map length (fst r)) (get_scores_by_t R self [text] ''none'' None pm) =
           Inr [35]"
  using repeated_phrase_counts [OF assms] by simp

text \<open>With four equal tokens there is a single window, and \<^verbatim>\<open>"v1"\<close> scores one position.\<close>

theorem repeated_phrase_scored_positions_witness:
  "ngram (config example_utils) = 4 \<and> seeding (config example_utils) = ''hash'' \<and>
   encode (generation_tokenizer (config example_utils)) (concat (replicate 10 ''aaaa'')) =
     concat (replicate 10 [1, 1, 1, 1]) \<and>
   map_sum id (\<lambda>r. map length (fst r))
     (get_scores_by_t example_runtime example_utils [concat (replicate 10 ''aaaa'')] ''v1'' None 0) =
     Inr [1] \<and>
   map_sum id (\<lambda>r. map length (fst r))
     (get_scores_by_t example_runtime example_utils [concat (replicate 10 ''aaaa'')] ''none'' None 0) =
     Inr [35]"
proof -
  have h: "ngram (config example_utils) = 4" "seeding (config example_utils) = ''hash''"
    by (simp_all add: example_defs)
  show ?thesis
    using h enc10a repeated_phrase_scored_positions [OF h enc10a, of example_runtime 0]
    by simp
qed

text \<open>
  The claim as stated fails for a phrase of four different tokens: its four rotations are
  four different windows, and \<^verbatim>\<open>"v1"\<close> scores four positions, not one.
\<close>

theorem repeated_phrase_v1_counterexample:
  "map_sum id (\<lambda>r. map length (fst r))
     (get_scores_by_t example_runtime example_utils [concat (replicate 10 ''abcd'')] ''v1'' None 0) =
     Inr [4]"
proof -
  have "ngram (config example_utils) = 4" "seeding (config example_utils) = ''hash''"
    by (simp_all add: example_defs)
  from repeated_phrase_counts(1) [OF this enc10, of example_runtime 0] show ?thesis by simp
qed

subsection \<open>Aggregation\<close>

lemma py_sum_tensors:
  assumes "length acc = n" "list_all (\<lambda>v. length v = n) scores"
  shows "py_sum (Tensor acc) (map Tensor scores) =
           Inr (Tensor (map (\<lambda>j. foldl fadd (acc ! j) (map (\<lambda>v. v ! j) scores)) [0 ..< n]))"
  using assms
proof (induction scores arbitrary: acc)
  case Nil
  then show ?case using map_nth [of acc] by auto
next
  case (Cons v scores)
  have "length (map2 fadd acc v) = n" using Cons.prems by simp
  from Cons.IH [OF this] Cons.prems show ?case by simp
qed

lemma py_sum_from_zero:
  assumes "scores \<noteq> []" "list_all (\<lambda>v. length v = n) scores"
  shows "py_sum (PyNum 0) (map Tensor scores) =
           Inr (Tensor (map (\<lambda>j. foldl fadd (Fin 0) (map (\<lambda>v. v ! j) scores)) [0 ..< n]))"
proof -
  from assms obtain v rest where sc: "scores = v # rest" by (cases scores) auto
  have "length (map (fadd (Fin 0)) v) = n" using assms sc by simp
  from py_sum_tensors [OF this, of rest] assms sc show ?thesis by simp
qed

lemma get_scores_loop_sums:
  assumes "list_all (list_all (\<lambda>v. length v = n)) score_lists"
  shows "get_scores_loop score_lists acc =
           Inr (acc @ map (\<lambda>scores. if scores = [] then PyNum 0
                  else Tensor (map (\<lambda>j. foldl fadd (Fin 0) (map (\<lambda>v. v ! j) scores)) [0 ..< n]))
                 score_lists)"
  using assms
proof (induction score_lists arbitrary: acc)
  case Nil
  then show ?case by simp
next
  case (Cons scores rest)
  show ?case
  proof (cases "scores = []")
    case True
    with Cons show ?thesis by simp
  next
    case False
    with Cons.prems have "py_sum (PyNum 0) (map Tensor scores) =
           Inr (Tensor (map (\<lambda>j. foldl fadd (Fin 0) (map (\<lambda>v. v ! j) scores)) [0 ..< n]))"
      by (simp add: py_sum_from_zero)
    with False Cons show ?thesis by simp
  qed
qed

lemma foldl_fadd_Fin: "foldl fadd (Fin a) (map Fin xs) = Fin (a + sum_list xs)"
  by (induction xs arbitrary: a) (simp_all add: add.assoc)

text \<open>
  C8. \<^verbatim>\<open>get_scores\<close> adds the score vectors of each text entry by entry, from the left
  and starting at 0, and gives the integer 0 for a text with no scored position; it
  raises nothing. The vectors of one call all have the same size \<open>n\<close>, as those of
  \<^verbatim>\<open>get_scores_by_t\<close> have (lemma \<open>get_scores_by_t_shapes\<close> below).
\<close>

theorem aggregation_is_elementwise_sum:
  assumes "list_all (list_all (\<lambda>v. length v = n)) score_lists"
  shows "get_scores score_lists =
           Inr (map (\<lambda>scores. if scores = [] then PyNum 0
                  else Tensor (map (\<lambda>j. foldl fadd (Fin 0) (map (\<lambda>v. v ! j) scores)) [0 ..< n]))
                 score_lists)"
  using get_scores_loop_sums [OF assms, of "[]"] by (simp add: get_scores_def)

theorem aggregation_is_elementwise_sum_witness:
  "list_all (list_all (\<lambda>v. length v = 2))
     [[[Fin 1, Fin 2], [Fin 3, Fin 4], [Fin 5, PInf]], []] \<and>
   get_scores [[[Fin 1, Fin 2], [Fin 3, Fin 4], [Fin 5, PInf]], []] =
     Inr [Tensor [Fin 9, PInf], PyNum 0]"
proof -
  have h: "list_all (list_all (\<lambda>v. length v = 2))
             [[[Fin 1, Fin 2], [Fin 3, Fin 4], [Fin 5, PInf]], []]"
    by simp
  show ?thesis
    using h aggregation_is_elementwise_sum [OF h] by (simp add: upt_rec)
qed

text \<open>The score vectors that \<^verbatim>\<open>get_scores_by_t\<close> returns all have one size.\<close>

lemma roll_length: "length (roll s xs) = length xs"
  by (simp add: roll_def)

lemma score_tok_length:
  "score_tok R self ctx tok = (Inr rt, s') \<Longrightarrow>
     length rt = vocab_size (generation_tokenizer (config self))"
  by (auto simp: score_tok_def rand_def roll_length split: sum.splits prod.splits)

lemma py_take_length:
  "length (py_take k xs) = (if 0 \<le> k then min (nat k) (length xs) else length xs - nat (- k))"
  by (auto simp: py_take_def)

lemma score_loop_shapes:
  assumes "score_loop R sm pm toks ps seen rts self = Inr (rts', self')"
    and "list_all (\<lambda>v. length v = n) rts"
    and "n = length (py_take (pm + 1) (replicate (vocab_size (generation_tokenizer (config self))) (0::nat)))"
  shows "list_all (\<lambda>v. length v = n) rts'"
  using assms
proof (induction ps arbitrary: seen rts self)
  case Nil
  then show ?case by simp
next
  case (Cons p ps)
  let ?st = "score_tok R self (py_slice toks (p - ngram (config self)) p) (toks ! p)"
  obtain g1 where g1: "snd ?st = self\<lparr>rng := g1\<rparr>"
    using score_tok_state by blast
  have step: "\<And>rt seen'. ?st = (Inr rt, self\<lparr>rng := g1\<rparr>) \<Longrightarrow>
      score_loop R sm pm toks ps seen' (rts @ [py_take (pm + 1) rt]) (self\<lparr>rng := g1\<rparr>) = Inr (rts', self')
      \<Longrightarrow> list_all (\<lambda>v. length v = n) rts'"
  proof -
    fix rt seen'
    assume st: "?st = (Inr rt, self\<lparr>rng := g1\<rparr>)"
      and rec: "score_loop R sm pm toks ps seen' (rts @ [py_take (pm + 1) rt]) (self\<lparr>rng := g1\<rparr>) = Inr (rts', self')"
    have "length (py_take (pm + 1) rt) = n"
      using score_tok_length [OF st] Cons.prems(3) by (simp add: py_take_length)
    with Cons.prems(2) have "list_all (\<lambda>v. length v = n) (rts @ [py_take (pm + 1) rt])" by simp
    from Cons.IH [OF rec this] Cons.prems(3) show "list_all (\<lambda>v. length v = n) rts'" by simp
  qed
  show ?case
  proof (cases "dedup_key sm (ngram (config self)) toks p")
    case None
    then obtain rt where "?st = (Inr rt, self\<lparr>rng := g1\<rparr>)"
      "score_loop R sm pm toks ps seen (rts @ [py_take (pm + 1) rt]) (self\<lparr>rng := g1\<rparr>) = Inr (rts', self')"
      using Cons.prems(1) g1 unfolding score_loop_step
      by (auto split: prod.splits sum.splits)
    then show ?thesis by (rule step)
  next
    case (Some k)
    show ?thesis
    proof (cases "k \<in> seen")
      case True
      with Some Cons.prems(1) have "score_loop R sm pm toks ps seen rts self = Inr (rts', self')"
        unfolding score_loop_step by simp
      from Cons.IH [OF this Cons.prems(2,3)] show ?thesis .
    next
      case False
      with Some obtain rt where "?st = (Inr rt, self\<lparr>rng := g1\<rparr>)"
        "score_loop R sm pm toks ps (insert k seen) (rts @ [py_take (pm + 1) rt]) (self\<lparr>rng := g1\<rparr>) = Inr (rts', self')"
        using Cons.prems(1) g1 unfolding score_loop_step
        by (auto split: prod.splits sum.splits)
      then show ?thesis by (rule step)
    qed
  qed
qed

lemma texts_loop_shapes:
  assumes "texts_loop R sm pm tks acc self = Inr (sl, s')"
    and "list_all (list_all (\<lambda>v. length v = n)) acc"
    and "n = length (py_take (pm + 1) (replicate (vocab_size (generation_tokenizer (config self))) (0::nat)))"
  shows "list_all (list_all (\<lambda>v. length v = n)) sl"
  using assms
proof (induction tks arbitrary: acc self)
  case Nil
  then show ?case by simp
next
  case (Cons toks rest)
  from Cons.prems(1) obtain rts s1 where
    sl: "score_loop R sm pm toks [ngram (config self) + 1 ..< length toks] {} [] self = Inr (rts, s1)"
    and rec: "texts_loop R sm pm rest (acc @ [rts]) s1 = Inr (sl, s')"
    by (auto simp: Let_def split: sum.splits)
  from score_loop_count [OF sl] obtain g1 where s1: "s1 = self\<lparr>rng := g1\<rparr>" by blast
  have "list_all (\<lambda>v. length v = n) rts"
    using score_loop_shapes [OF sl _ Cons.prems(3)] by simp
  with Cons.prems(2) have "list_all (list_all (\<lambda>v. length v = n)) (acc @ [rts])" by simp
  from Cons.IH [OF rec this] Cons.prems(3) s1 show ?case by simp
qed

lemma get_scores_by_t_shapes:
  assumes "get_scores_by_t R self texts sm nm pm = Inr (score_lists, s')"
  shows "list_all (list_all (\<lambda>v. length v =
           length (py_take (pm + 1) (replicate (vocab_size (generation_tokenizer (config self))) (0::nat)))))
         score_lists"
  using assms texts_loop_shapes [of R sm pm _ "[]" self score_lists s']
  by (simp add: get_scores_by_t_def Let_def)

subsection \<open>Detection\<close>

lemma get_scores_loop_append:
  "get_scores_loop sl acc = Inr r \<Longrightarrow> \<exists>new. r = acc @ new \<and> length new = length sl"
proof (induction sl arbitrary: acc)
  case Nil
  then show ?case by simp
next
  case (Cons scores rest)
  show ?case
  proof (cases "length scores = 0")
    case True
    with Cons.prems have "get_scores_loop rest (acc @ [PyNum 0]) = Inr r" by simp
    from Cons.IH [OF this] show ?thesis by auto
  next
    case False
    with Cons.prems obtain a where "get_scores_loop rest (acc @ [a]) = Inr r"
      by (auto split: sum.splits)
    from Cons.IH [OF this] show ?thesis by auto
  qed
qed

lemma get_scores_loop_Cons:
  assumes "get_scores_loop (scores # rest) acc = Inr r"
  shows "\<exists>a more. get_scores_loop [scores] acc = Inr (acc @ [a]) \<and> r = acc @ a # more"
proof (cases "length scores = 0")
  case True
  with assms have "get_scores_loop rest (acc @ [PyNum 0]) = Inr r" by simp
  from get_scores_loop_append [OF this] True show ?thesis by auto
next
  case False
  with assms obtain a where a: "py_sum (PyNum 0) (map Tensor scores) = Inr a"
    and "get_scores_loop rest (acc @ [a]) = Inr r"
    by (auto split: sum.splits)
  from get_scores_loop_append [OF this(2)] a False show ?thesis by auto
qed

lemma get_threshold_config:
  "config s = config s' \<Longrightarrow> get_threshold R s n alpha = get_threshold R s' n alpha"
  by (simp add: get_threshold_def)

lemma detect_locals_first:
  assumes "detect_locals R self (t # ts) alpha sm nm = Inr (sc, th, s')"
  shows "\<exists>s1. detect_locals R self [t] alpha sm nm = Inr (sc, th, s1)"
proof -
  let ?f = "\<lambda>x. (case nm of None \<Rightarrow> encode (generation_tokenizer (config self)) x
                    | Some m \<Rightarrow> py_take m (encode (generation_tokenizer (config self)) x))"
  have toks: "\<And>xs. get_scores_by_t R self xs ''none'' nm 0 = texts_loop R ''none'' 0 (map ?f xs) [] self"
    by (simp add: get_scores_by_t_def Let_def comp_def split: option.splits)
  from assms obtain scores score s0 others others' where
    tlp: "texts_loop R ''none'' 0 (?f t # map ?f ts) [] self = Inr (scores, s')"
    and gs: "get_scores scores = Inr score"
    and sc: "scores = s0 # others" "score = sc # others'"
    and th: "th = get_threshold R s' (length s0) alpha"
    unfolding detect_locals_def toks
    by (auto simp: Let_def split: sum.splits list.splits)
  from texts_loop_Cons [OF tlp] sc obtain s1 where
    sl: "score_loop R ''none'' 0 (?f t) [ngram (config self) + 1 ..< length (?f t)] {} [] self = Inr (s0, s1)"
    and cfg: "config s' = config self" "config s1 = config self"
    by auto
  from gs sc get_scores_loop_Cons [of s0 others "[]" score] have
    g1: "get_scores [s0] = Inr [sc]"
    by (auto simp: get_scores_def)
  have "get_threshold R s1 (length s0) alpha = th"
    using th cfg get_threshold_config [of s1 s'] by simp
  with sl g1 show ?thesis
    unfolding detect_locals_def toks by (simp add: Let_def)
qed

lemma detect_first_text:
  assumes "detect_watermark R self (t # ts) alpha sm nm = Inr d"
  shows "detect_watermark R self [t] alpha sm nm = Inr d"
proof -
  from assms obtain sc th s' where
    dl: "detect_locals R self (t # ts) alpha sm nm = Inr (sc, th, s')"
    and d: "(case py_gt sc th of Inl e \<Rightarrow> Inl e | Inr b \<Rightarrow> Inr (if b then 1 else 0)) = Inr d"
    unfolding detect_watermark_def by (auto split: sum.splits)
  from detect_locals_first [OF dl] obtain s1 where
    "detect_locals R self [t] alpha sm nm = Inr (sc, th, s1)" by blast
  with d show ?thesis unfolding detect_watermark_def by simp
qed

lemma detect_short:
  assumes "length (case nm of None \<Rightarrow> encode (generation_tokenizer (config self)) t
                    | Some m \<Rightarrow> py_take m (encode (generation_tokenizer (config self)) t))
             \<le> ngram (config self)"
  shows "detect_locals R self [t] alpha sm nm = Inr (PyNum 0, PInf, self)"
    and "detect_watermark R self [t] alpha sm nm = Inr 0"
proof -
  show dl: "detect_locals R self [t] alpha sm nm = Inr (PyNum 0, PInf, self)"
    using assms
    by (simp add: detect_locals_def get_scores_by_t_def get_scores_def get_threshold_def Let_def
        split: option.splits)
  show "detect_watermark R self [t] alpha sm nm = Inr 0"
    by (simp add: detect_watermark_def dl)
qed

text \<open>
  Under \<^verbatim>\<open>'hash'\<close> seeding, with a window and a vocabulary that are not empty, the call
  returns a decision for every non-empty list of texts.
\<close>

lemma texts_loop_hash_total:
  assumes "seeding (config self) = ''hash''" "0 < ngram (config self)"
  shows "\<exists>sl g. texts_loop R sm pm tks acc self = Inr (sl, self\<lparr>rng := g\<rparr>)"
  using assms
proof (induction tks arbitrary: acc self)
  case Nil
  then show ?case using self_rng_id by simp
next
  case (Cons toks rest)
  let ?ps = "[ngram (config self) + 1 ..< length toks]"
  have "list_all (\<lambda>p. ngram (config self) < p \<and> p < length toks) ?ps"
    by (simp add: list_all_iff)
  from score_loop_hash_total [OF Cons.prems this, of R sm pm "{}" "[]"] obtain rts g1 where
    sl: "score_loop R sm pm toks ?ps {} [] self = Inr (rts, self\<lparr>rng := g1\<rparr>)" by blast
  have "\<exists>sl g. texts_loop R sm pm rest (acc @ [rts]) (self\<lparr>rng := g1\<rparr>) = Inr (sl, self\<lparr>rng := g1\<rparr>\<lparr>rng := g\<rparr>)"
    by (rule Cons.IH) (use Cons.prems in simp_all)
  with sl show ?case by (simp add: Let_def)
qed

lemma get_scores_by_t_tokens:
  "get_scores_by_t R self xs sm nm pm =
     texts_loop R sm pm
       (map (\<lambda>x. case nm of None \<Rightarrow> encode (generation_tokenizer (config self)) x
                    | Some m \<Rightarrow> py_take m (encode (generation_tokenizer (config self)) x)) xs)
       [] self"
  by (cases nm) (simp_all add: get_scores_by_t_def Let_def comp_def)

lemma detect_returns_under_hash_seeding:
  assumes "seeding (config self) = ''hash''" "0 < ngram (config self)"
    and "0 < vocab_size (generation_tokenizer (config self))"
  shows "\<exists>d. detect_watermark R self (t # ts) alpha sm nm = Inr d \<and> (d = 0 \<or> d = 1)"
proof -
  let ?f = "\<lambda>x. (case nm of None \<Rightarrow> encode (generation_tokenizer (config self)) x
                    | Some m \<Rightarrow> py_take m (encode (generation_tokenizer (config self)) x))"
  have toks: "get_scores_by_t R self (t # ts) ''none'' nm 0 = texts_loop R ''none'' 0 (map ?f (t # ts)) [] self"
    by (rule get_scores_by_t_tokens)
  obtain scores g where tl: "texts_loop R ''none'' 0 (map ?f (t # ts)) [] self = Inr (scores, self\<lparr>rng := g\<rparr>)"
    using texts_loop_hash_total [OF assms(1,2)] by blast
  from texts_loop_append [OF tl] obtain s0 others where sc: "scores = s0 # others"
    by (cases scores) auto
  have gs: "get_scores_by_t R self (t # ts) ''none'' nm 0 = Inr (scores, self\<lparr>rng := g\<rparr>)"
    using toks tl by simp
  have n1: "length (py_take (0 + 1) (replicate (vocab_size (generation_tokenizer (config self))) (0::nat))) = 1"
    using assms(3) by (simp add: py_take_def)
  from get_scores_by_t_shapes [OF gs] have sh: "list_all (list_all (\<lambda>v. length v = 1)) scores"
    by (simp only: n1)
  define agg where "agg = (\<lambda>scores :: flt list list. if scores = [] then PyNum 0
                  else Tensor (map (\<lambda>j. foldl fadd (Fin 0) (map (\<lambda>v. v ! j) scores)) [0 ..< 1]))"
  have g: "get_scores (s0 # others) = Inr (agg s0 # map agg others)"
    using get_scores_loop_sums [OF sh, of "[]"] by (simp add: get_scores_def sc agg_def)
  obtain b where b: "py_gt (agg s0) (get_threshold R (self\<lparr>rng := g\<rparr>) (length s0) alpha) = Inr b"
    by (cases "s0 = []") (simp_all add: agg_def)
  have "detect_watermark R self (t # ts) alpha sm nm = Inr (if b then 1 else 0)"
    by (simp add: detect_watermark_def detect_locals_def gs g sc b Let_def)
  then show ?thesis by auto
qed

lemma detect_threshold_counts_scored_positions:
  assumes "detect_locals R self [t] alpha sm nm = Inr (sc, th, s')"
  shows "th = get_threshold R self
           (length (case nm of None \<Rightarrow> encode (generation_tokenizer (config self)) t
                    | Some m \<Rightarrow> py_take m (encode (generation_tokenizer (config self)) t))
             - (ngram (config self) + 1)) alpha"
proof -
  let ?toks = "case nm of None \<Rightarrow> encode (generation_tokenizer (config self)) t
                    | Some m \<Rightarrow> py_take m (encode (generation_tokenizer (config self)) t)"
  have toks: "get_scores_by_t R self [t] ''none'' nm 0 = texts_loop R ''none'' 0 [?toks] [] self"
    by (simp add: get_scores_by_t_def Let_def split: option.splits)
  from assms obtain rts s1 where
    sl: "score_loop R ''none'' 0 ?toks [ngram (config self) + 1 ..< length ?toks] {} [] self = Inr (rts, s1)"
    and th: "th = get_threshold R s1 (length rts) alpha"
    unfolding detect_locals_def toks
    by (auto simp: Let_def split: sum.splits list.splits)
  from score_loop_count [OF sl] obtain g where
    "length rts = length ?toks - (ngram (config self) + 1)" "s1 = self\<lparr>rng := g\<rparr>"
    by (auto simp: scored_positions_none)
  with th show ?thesis by (simp add: get_threshold_def)
qed

lemma example_detect_two_texts:
  "detect_watermark example_runtime example_utils [''abc'', ''abcdabcdab''] (1 / 100) ''none'' None
     = Inr 0"
  by (simp add: detect_defs example_defs upt_rec rotate_numeral)

lemma example_detect_long_text:
  "detect_watermark example_runtime example_utils [''abcdabcdab''] (1 / 100) ''none'' None = Inr 1"
  by (simp add: detect_defs example_defs upt_rec rotate_numeral)

text \<open>
  C1 (amended). For a non-empty list of texts \<^verbatim>\<open>detect_watermark\<close> returns one decision,
  that of the first text: whenever it returns, the value is the one it returns for the
  list that holds the first text alone. The other texts are scored and contribute nothing.
  (That it does return is lemma \<open>detect_returns_under_hash_seeding\<close>.)
\<close>

theorem detect_decides_first_text_only:
  assumes "detect_watermark R self (t # ts) alpha scoring_method ntoks_max = Inr d"
  shows "detect_watermark R self [t] alpha scoring_method ntoks_max = Inr d"
  using assms by (rule detect_first_text)

theorem detect_decides_first_text_only_witness:
  "detect_watermark example_runtime example_utils (''abc'' # [''abcdabcdab'']) (1 / 100) ''none'' None
     = Inr 0 \<and>
   detect_watermark example_runtime example_utils [''abc''] (1 / 100) ''none'' None = Inr 0"
proof -
  have h: "detect_watermark example_runtime example_utils (''abc'' # [''abcdabcdab''])
             (1 / 100) ''none'' None = Inr 0"
    by (rule example_detect_two_texts)
  show ?thesis
    using h detect_decides_first_text_only [OF h] by simp
qed

text \<open>
  The claim as stated fails on a list of two texts: the call returns the single decision
  0, while the second text, detected on its own, is decided 1.
\<close>

theorem detect_one_decision_per_text_counterexample:
  "detect_watermark example_runtime example_utils [''abc'', ''abcdabcdab''] (1 / 100) ''none'' None
     = Inr 0 \<and>
   detect_watermark example_runtime example_utils [''abcdabcdab''] (1 / 100) ''none'' None = Inr 1"
  using example_detect_two_texts example_detect_long_text by simp

text \<open>
  C2. The claim: for a text of more than \<^verbatim>\<open>ngram\<close> tokens the threshold is the quantile
  with shape \<open>n_tokens - ngram\<close>. The code passes \<^verbatim>\<open>len(scores[0])\<close>, the number of scored
  positions, as \<^verbatim>\<open>n_tokens\<close> (lemma \<open>detect_threshold_counts_scored_positions\<close>). At
  \<^verbatim>\<open>ngram = 4\<close>, a text of 8 tokens gets the threshold \<open>+\<infinity>\<close> instead of the quantile of
  shape 4, and a text of 10 tokens the quantile of shape 1 instead of shape 6.
\<close>

theorem detect_threshold_at_eight_and_ten_tokens:
  "length (encode example_tokenizer ''abcdabcd'') = 8 \<and>
   map_sum id (fst \<circ> snd) (detect_locals R example_utils [''abcdabcd''] alpha scoring_method None)
     = Inr PInf \<and>
   length (encode example_tokenizer ''abcdabcdab'') = 10 \<and>
   map_sum id (fst \<circ> snd) (detect_locals R example_utils [''abcdabcdab''] alpha scoring_method None)
     = Inr (gamma_ppf R (1 - alpha) 1)"
  by (simp add: detect_defs example_defs upt_rec rotate_numeral Let_def split: prod.splits)

text \<open>
  C6. A text with at most \<^verbatim>\<open>ngram\<close> tokens (after the truncation to \<^verbatim>\<open>ntoks_max\<close>) is
  never called watermarked: its score is the integer 0, the threshold is \<open>+\<infinity>\<close>, the
  decision is 0 and nothing is raised, whatever the text, the runtime and the arguments.
\<close>

theorem short_text_is_never_watermarked:
  assumes "length (case ntoks_max of
                     None \<Rightarrow> encode (generation_tokenizer (config self)) t
                   | Some m \<Rightarrow> py_take m (encode (generation_tokenizer (config self)) t))
             \<le> ngram (config self)"
  shows "detect_locals R self [t] alpha scoring_method ntoks_max = Inr (PyNum 0, PInf, self) \<and>
         detect_watermark R self [t] alpha scoring_method ntoks_max = Inr 0"
  using detect_short [OF assms] by simp

theorem short_text_is_never_watermarked_witness:
  "length (case Some 3 of
             None \<Rightarrow> encode (generation_tokenizer (config example_utils)) ''abcdabcdab''
           | Some m \<Rightarrow> py_take m (encode (generation_tokenizer (config example_utils)) ''abcdabcdab''))
     \<le> ngram (config example_utils) \<and>
   detect_watermark example_runtime example_utils [''abcdabcdab''] (1 / 100) ''none'' (Some 3)
     = Inr 0"
proof -
  have h: "length (case Some 3 of
             None \<Rightarrow> encode (generation_tokenizer (config example_utils)) ''abcdabcdab''
           | Some m \<Rightarrow> py_take m (encode (generation_tokenizer (config example_utils)) ''abcdabcdab''))
     \<le> ngram (config example_utils)"
    by (simp add: example_defs py_take_def)
  show ?thesis
    using h short_text_is_never_watermarked [OF h, of example_runtime "1 / 100" "''none''"]
    by simp
qed

text \<open>
  C10. The decision does not depend on the argument \<^verbatim>\<open>scoring_method\<close>: the call scores
  with the default \<^verbatim>\<open>"none"\<close> whatever it is given.
\<close>

theorem detect_ignores_scoring_method:
  "detect_watermark R self text alpha scoring_method ntoks_max =
     detect_watermark R self text alpha scoring_method' ntoks_max \<and>
   detect_locals R self text alpha scoring_method ntoks_max =
     detect_locals R self text alpha ''none'' ntoks_max"
  by (simp add: detect_watermark_def detect_locals_def)

subsection \<open>Sampling at temperature 0\<close>

lemma argmax_scan_max:
  fixes row :: "real list"
  assumes "i \<le> length row" "bi < i" "\<forall>j<i. row ! j \<le> row ! bi" "\<forall>j<bi. row ! j < row ! bi"
  shows "argmax_scan (<) bi (row ! bi) i (drop i row) < length row \<and>
         (\<forall>j<length row. row ! j \<le> row ! argmax_scan (<) bi (row ! bi) i (drop i row)) \<and>
         (\<forall>j<argmax_scan (<) bi (row ! bi) i (drop i row). row ! j < row ! argmax_scan (<) bi (row ! bi) i (drop i row))"
  using assms
proof (induction "length row - i" arbitrary: i bi)
  case 0
  then show ?case by simp
next
  case (Suc n)
  then have i: "i < length row" by simp
  then have dr: "drop i row = row ! i # drop (Suc i) row"
    by (simp add: Cons_nth_drop_Suc)
  have n: "n = length row - Suc i" using Suc.hyps(2) by simp
  show ?case
  proof (cases "row ! bi < row ! i")
    case True
    have a: "\<forall>j<Suc i. row ! j \<le> row ! i"
      using Suc.prems(3) True by (auto simp: less_Suc_eq)
    have b: "\<forall>j<i. row ! j < row ! i"
      using Suc.prems(3) True by (meson le_less_trans)
    from Suc.hyps(1) [OF n _ _ a b] i True show ?thesis
      by (simp add: dr)
  next
    case False
    have a: "\<forall>j<Suc i. row ! j \<le> row ! bi"
      using Suc.prems(3) False by (auto simp: less_Suc_eq)
    from Suc.hyps(1) [OF n _ _ a Suc.prems(4)] i False Suc.prems(2) show ?thesis
      by (simp add: dr)
  qed
qed

lemma argmax_max:
  fixes row :: "real list"
  assumes "argmax (<) row = Inr k"
  shows "k < length row \<and> (\<forall>j<length row. row ! j \<le> row ! k) \<and> (\<forall>j<k. row ! j < row ! k)"
proof -
  from assms obtain x xs where row: "row = x # xs" and k: "k = argmax_scan (<) 0 x 1 xs"
    by (auto simp: argmax_def split: list.splits)
  have "argmax_scan (<) 0 (row ! 0) 1 (drop 1 row) < length row \<and>
         (\<forall>j<length row. row ! j \<le> row ! argmax_scan (<) 0 (row ! 0) 1 (drop 1 row)) \<and>
         (\<forall>j<argmax_scan (<) 0 (row ! 0) 1 (drop 1 row). row ! j < row ! argmax_scan (<) 0 (row ! 0) 1 (drop 1 row))"
    by (rule argmax_scan_max) (simp_all add: row)
  then show ?thesis by (simp add: row k)
qed

lemma argmax_rows_max:
  fixes logits :: "real list list"
  assumes "argmax_rows (<) logits = Inr next_token"
  shows "length next_token = length logits \<and>
         (\<forall>i<length logits. next_token ! i < length (logits ! i) \<and>
            (\<forall>j<length (logits ! i). logits ! i ! j \<le> logits ! i ! (next_token ! i)) \<and>
            (\<forall>j<next_token ! i. logits ! i ! j < logits ! i ! (next_token ! i)))"
  using assms
proof (induction logits arbitrary: next_token)
  case Nil
  then show ?case by simp
next
  case (Cons row rows)
  from Cons.prems obtain k ks where k: "argmax (<) row = Inr k" and ks: "argmax_rows (<) rows = Inr ks"
    and nt: "next_token = k # ks"
    by (auto split: sum.splits)
  from Cons.IH [OF ks] argmax_max [OF k] nt show ?case
    by (auto simp: nth_Cons split: nat.splits)
qed

text \<open>
  C9. At temperature 0 \<^verbatim>\<open>sample_next\<close> returns the \<^verbatim>\<open>argmax\<close> of each row of the logits
  and leaves the instance as it was: no seed is computed and no vector is drawn, and
  neither the context windows, the payload nor \<^verbatim>\<open>top_p\<close> enter the result.
\<close>

theorem greedy_sampling_is_plain_argmax:
  "sample_next R self logits ngram_tokens 0 top_p =
     (case argmax_rows (<) logits of
        Inl e \<Rightarrow> Inl e
      | Inr next_token \<Rightarrow> Inr (next_token, self)) \<and>
   (\<forall>next_token. argmax_rows (<) logits = Inr next_token \<longrightarrow>
      length next_token = length logits \<and>
      (\<forall>i<length logits. next_token ! i < length (logits ! i) \<and>
         (\<forall>j<length (logits ! i). logits ! i ! j \<le> logits ! i ! (next_token ! i))))"
  using argmax_rows_max [of logits] by (simp add: sample_next_def)

theorem greedy_sampling_is_plain_argmax_witness:
  "argmax_rows (<) [[1, 3, 2], [5, 0, 5 :: real]] = Inr [1, 0] \<and>
   sample_next example_runtime example_utils [[1, 3, 2], [5, 0, 5]] [[1, 2, 3, 0], [0, 1, 2, 3]] 0 1
     = Inr ([1, 0], example_utils)"
proof -
  have h: "argmax_rows (<) [[1, 3, 2], [5, 0, 5 :: real]] = Inr [1, 0]"
    by (simp add: argmax_def)
  show ?thesis
    using h greedy_sampling_is_plain_argmax
      [of example_runtime example_utils "[[1, 3, 2], [5, 0, 5]]" "[[1, 2, 3, 0], [0, 1, 2, 3]]" 1]
    by simp
qed

text \<open>
  At a positive temperature the same call seeds the generator with the hash of the window
  and draws from it: the instance comes back with its generator moved.
\<close>

lemma example_nucleus:
  "nucleus example_runtime 1 1 [0, 0, 0, 0] =
     ([Fin (ln (1 / 4)), Fin (ln (1 / 4)), Fin (ln (1 / 4)), Fin (ln (1 / 4))], [0, 1, 2, 3])"
proof -
  have a1: "softmax (map (\<lambda>x. x / 1) [0, 0, 0, 0]) = [1 / 4, 1 / 4, 1 / 4, 1 / 4]"
    by (simp add: softmax_def)
  have a2: "argsort_desc example_runtime [1 / 4, 1 / 4, 1 / 4, 1 / 4] = [0, 1, 2, 3]"
    by (simp add: example_runtime_def)
  have a3: "cumsum [1 / 4, 1 / 4, 1 / 4, 1 / 4] = [1 / 4, 1 / 2, 3 / 4, 1]"
    by (simp add: cumsum_def upt_rec)
  show ?thesis
    unfolding nucleus_def a1 Let_def a2 by (simp add: a3 fdiv_def flog_def)
qed

lemma example_sampling_reseeds:
  "sample_next example_runtime example_utils [[0, 0, 0, 0]] [[1, 2, 3, 0]] 1 1 =
     Inr ([0], example_utils\<lparr>rng := \<lparr>gseed = 4481735200407599061, gpos = 4\<rparr>\<rparr>)"
proof -
  have seed: "get_seed_rng example_utils [1, 2, 3, 0] = Inr (PyInt 4481735200407599061)"
    by (simp add: get_seed_rng_def example_defs)
  have ms: "manual_seed (PyInt 4481735200407599061) = Inr \<lparr>gseed = 4481735200407599061, gpos = 0\<rparr>"
    by (simp add: manual_seed_def)
  have rs: "rand example_runtime \<lparr>gseed = 4481735200407599061, gpos = 0\<rparr> (vocab_size (generation_tokenizer (config example_utils)))
     = ([exp (- 2), exp (- 2), exp (- 2), exp (- 2)], \<lparr>gseed = 4481735200407599061, gpos = 4\<rparr>)"
    by (simp add: rand_def example_defs upt_rec)
  have pl: "payload (config example_utils) = 0"
    by (simp add: example_defs)
  have wl: "watermark_loop example_runtime [[1, 2, 3, 0]] 0 [[0, 1, 2, 3]]
              [[Fin (ln (1 / 4)), Fin (ln (1 / 4)), Fin (ln (1 / 4)), Fin (ln (1 / 4))]] example_utils =
            Inr ([[Fin (ln (1 / 4) + 2), Fin (ln (1 / 4) + 2), Fin (ln (1 / 4) + 2), Fin (ln (1 / 4) + 2)]],
                 example_utils\<lparr>rng := \<lparr>gseed = 4481735200407599061, gpos = 4\<rparr>\<rparr>)"
    by (simp add: seed ms rs pl roll_def flog_def fsub_def Let_def)
  have "sample_next example_runtime example_utils [[0, 0, 0, 0]] [[1, 2, 3, 0]] 1 1 =
          (case argmax_rows fless
                  [[Fin (ln (1 / 4) + 2), Fin (ln (1 / 4) + 2), Fin (ln (1 / 4) + 2),
                    Fin (ln (1 / 4) + 2)]] of
             Inl e \<Rightarrow> Inl e
           | Inr next_token \<Rightarrow>
               Inr (gather [[0, 1, 2, 3]] next_token,
                    example_utils\<lparr>rng := \<lparr>gseed = 4481735200407599061, gpos = 4\<rparr>\<rparr>))"
    by (simp only: sample_next_def list.map example_nucleus Let_def fst_conv snd_conv wl
        zero_less_one if_True sum.case prod.case)
  then show ?thesis
    by (simp add: argmax_def gather_def)
qed

subsection \<open>The permutation table\<close>

lemma PFUtils_init_table:
  assumes "PFUtils_init R c g = (Inr u, g1)"
  shows "hashtable u = fst (randperm R g 1000003)" and "g1 = snd (randperm R g 1000003)"
    and "config u = c"
  using assms
  by (auto simp: PFUtils_init_def Let_def split: prod.splits sum.splits)

lemma hashint_table: "hashtable u = hashtable u' \<Longrightarrow> hashint u v = hashint u' v"
  by (simp add: hashint_def split: pyval.splits)

lemma example_randperm_snd: "snd (example_randperm g n) = g\<lparr>gpos := gpos g + (n - 1)\<rparr>"
  by (simp add: example_randperm_def)

lemma example_randperm_length: "length (fst (example_randperm g n)) = n"
  by (simp add: example_randperm_def)

lemma example_randperm_0: "0 < n \<Longrightarrow> fst (example_randperm g n) ! 0 = (gseed g + int (gpos g)) mod int n"
  by (simp add: example_randperm_def)

lemma example_init:
  "PFUtils_init example_runtime example_config example_default_generator =
     (Inr example_utils, \<lparr>gseed = 0, gpos = 1000002\<rparr>)"
  by (simp add: PFUtils_init_def example_runtime_def example_config_def example_tokenizer_def example_utils_def
      example_table_def manual_seed_def Let_def case_prod_beta example_randperm_snd example_default_generator_def)

lemma example_init2:
  "PFUtils_init example_runtime example_config \<lparr>gseed = 0, gpos = 1000002\<rparr> =
     (Inr example_second_utils, \<lparr>gseed = 0, gpos = 2000004\<rparr>)"
  by (simp add: PFUtils_init_def example_runtime_def example_config_def example_tokenizer_def example_utils_def
      example_second_utils_def example_second_table_def
      example_table_def manual_seed_def Let_def case_prod_beta example_randperm_snd example_default_generator_def)

lemma tables0: "example_table ! 0 = 0" "example_second_table ! 0 = 1000002"
  by (simp_all add: example_table_def example_second_table_def example_randperm_0 example_randperm_snd example_default_generator_def)

lemma table_lengths: "length example_table = 1000003" "length example_second_table = 1000003"
  by (simp_all add: example_table_def example_second_table_def example_randperm_length)

text \<open>
  Every operation that hands the instance back hands it back with another generator at
  most: the sampling loop, the sampler, the scorer of texts and the detection.
\<close>

lemma watermark_loop_state:
  "watermark_loop R ctxs ii probs_idx log_probs self = Inr (log_probs', self') \<Longrightarrow>
     \<exists>g. self' = self\<lparr>rng := g\<rparr>"
proof (induction ctxs arbitrary: ii log_probs self)
  case Nil
  then show ?case using self_rng_id by simp
next
  case (Cons ctx rest)
  from Cons.prems obtain g1 lp1 where
    rec: "watermark_loop R rest (Suc ii) probs_idx lp1 (self\<lparr>rng := g1\<rparr>) = Inr (log_probs', self')"
    by (auto simp: Let_def split: sum.splits prod.splits if_splits)
  from Cons.IH [OF rec] obtain g where "self' = self\<lparr>rng := g1\<rparr>\<lparr>rng := g\<rparr>" by blast
  then show ?case by auto
qed

lemma sample_next_state:
  assumes "sample_next R self logits ngram_tokens temperature top_p = Inr (next_token, self')"
  shows "\<exists>g. self' = self\<lparr>rng := g\<rparr>"
proof (cases "temperature > 0")
  case True
  define idx where "idx = map snd (map (nucleus R temperature top_p) logits)"
  define lp where "lp = map fst (map (nucleus R temperature top_p) logits)"
  have "sample_next R self logits ngram_tokens temperature top_p =
          (case watermark_loop R ngram_tokens 0 idx lp self of
             Inl e \<Rightarrow> Inl e
           | Inr (log_probs', self') \<Rightarrow>
               (case argmax_rows fless log_probs' of
                  Inl e \<Rightarrow> Inl e
                | Inr next_token \<Rightarrow> Inr (gather idx next_token, self')))"
    using True unfolding sample_next_def idx_def lp_def Let_def by simp
  with assms obtain lp' where "watermark_loop R ngram_tokens 0 idx lp self = Inr (lp', self')"
    by (auto split: sum.splits)
  then show ?thesis by (rule watermark_loop_state)
next
  case False
  with assms have "self' = self"
    by (auto simp: sample_next_def split: sum.splits)
  then show ?thesis using self_rng_id by simp
qed

lemma get_scores_by_t_state:
  assumes "get_scores_by_t R self texts sm nm pm = Inr (score_lists, self')"
  shows "\<exists>g. self' = self\<lparr>rng := g\<rparr>"
proof -
  from assms have
    "texts_loop R sm pm
       (map (\<lambda>x. case nm of None \<Rightarrow> encode (generation_tokenizer (config self)) x
                    | Some m \<Rightarrow> py_take m (encode (generation_tokenizer (config self)) x)) texts)
       [] self = Inr (score_lists, self')"
    by (simp only: get_scores_by_t_tokens)
  from texts_loop_append [OF this] show ?thesis by blast
qed

lemma detect_locals_state:
  assumes "detect_locals R self texts alpha sm nm = Inr (sc, th, self')"
  shows "\<exists>g. self' = self\<lparr>rng := g\<rparr>"
proof -
  from assms obtain scores where "get_scores_by_t R self texts ''none'' nm 0 = Inr (scores, self')"
    by (auto simp: detect_locals_def Let_def split: sum.splits list.splits)
  then show ?thesis by (rule get_scores_by_t_state)
qed

text \<open>
  C4 (amended). The table is drawn at construction from the process-wide default
  generator, for which the code sets no seed: it is a function of the state of that
  generator alone. Two constructions that start from the same state get the same table and
  the same hash outputs, whatever their configurations; and the table is not changed
  after construction: scoring a token, scoring texts, detection and sampling all leave
  it as it is.
\<close>

theorem table_is_drawn_from_default_generator:
  assumes "PFUtils_init R c g = (Inr u, g1)" "PFUtils_init R c' g = (Inr u', g2)"
  shows "hashtable u = fst (randperm R g 1000003) \<and> hashtable u' = hashtable u \<and>
         hashint u' v = hashint u v \<and>
         hashtable (snd (score_tok R u ctx tok)) = hashtable u \<and>
         (get_scores_by_t R u texts scoring_method ntoks_max payload_max = Inr (score_lists, u1)
            \<longrightarrow> hashtable u1 = hashtable u) \<and>
         (detect_locals R u texts alpha scoring_method ntoks_max = Inr (score0, threshold, u2)
            \<longrightarrow> hashtable u2 = hashtable u) \<and>
         (sample_next R u logits ngram_tokens temperature top_p = Inr (next_token, u3)
            \<longrightarrow> hashtable u3 = hashtable u)"
proof -
  have t: "hashtable u = fst (randperm R g 1000003)" "hashtable u' = fst (randperm R g 1000003)"
    using assms by (simp_all add: PFUtils_init_table)
  obtain g' where st: "snd (score_tok R u ctx tok) = u\<lparr>rng := g'\<rparr>"
    using score_tok_state by blast
  have a: "get_scores_by_t R u texts scoring_method ntoks_max payload_max = Inr (score_lists, u1)
            \<longrightarrow> hashtable u1 = hashtable u"
    using get_scores_by_t_state [of R u texts scoring_method ntoks_max payload_max score_lists u1] by auto
  have b: "detect_locals R u texts alpha scoring_method ntoks_max = Inr (score0, threshold, u2)
            \<longrightarrow> hashtable u2 = hashtable u"
    using detect_locals_state [of R u texts alpha scoring_method ntoks_max score0 threshold u2] by auto
  have c: "sample_next R u logits ngram_tokens temperature top_p = Inr (next_token, u3)
            \<longrightarrow> hashtable u3 = hashtable u"
    using sample_next_state [of R u logits ngram_tokens temperature top_p next_token u3] by auto
  have t1: "hashtable u' = hashtable u" using t by simp
  have t2: "hashint u' v = hashint u v" using t1 by (rule hashint_table)
  have t3: "hashtable (snd (score_tok R u ctx tok)) = hashtable u" using st by simp
  from t(1) t1 t2 t3 a b c show ?thesis by blast
qed

text \<open>
  Two configurations with different secrets built from one generator state, and a
  sampling, a scoring and a detection on the instance.
\<close>

theorem table_is_drawn_from_default_generator_witness:
  "PFUtils_init example_runtime example_config example_default_generator =
     (Inr example_utils, \<lparr>gseed = 0, gpos = 1000002\<rparr>) \<and>
   PFUtils_init example_runtime (example_config\<lparr>seed := 7, salt_key := 11\<rparr>)
       example_default_generator =
     (Inr (example_utils\<lparr>config := example_config\<lparr>seed := 7, salt_key := 11\<rparr>,
                         rng := \<lparr>gseed = 7, gpos = 0\<rparr>\<rparr>),
      \<lparr>gseed = 0, gpos = 1000002\<rparr>) \<and>
   hashtable (example_utils\<lparr>config := example_config\<lparr>seed := 7, salt_key := 11\<rparr>,
                            rng := \<lparr>gseed = 7, gpos = 0\<rparr>\<rparr>) = hashtable example_utils \<and>
   sample_next example_runtime example_utils [[0, 0, 0, 0]] [[1, 2, 3, 0]] 1 1 =
     Inr ([0], example_utils\<lparr>rng := \<lparr>gseed = 4481735200407599061, gpos = 4\<rparr>\<rparr>) \<and>
   hashtable (example_utils\<lparr>rng := \<lparr>gseed = 4481735200407599061, gpos = 4\<rparr>\<rparr>) =
     hashtable example_utils \<and>
   map_sum id (\<lambda>r. hashtable (snd r))
     (get_scores_by_t example_runtime example_utils [''abcdabcdab''] ''v2'' None 0) =
     Inr (hashtable example_utils) \<and>
   map_sum id (\<lambda>r. hashtable (snd (snd r)))
     (detect_locals example_runtime example_utils [''abcdabcdab''] (1 / 100) ''none'' None) =
     Inr (hashtable example_utils)"
proof -
  have h2: "PFUtils_init example_runtime (example_config\<lparr>seed := 7, salt_key := 11\<rparr>)
              example_default_generator =
     (Inr (example_utils\<lparr>config := example_config\<lparr>seed := 7, salt_key := 11\<rparr>,
                         rng := \<lparr>gseed = 7, gpos = 0\<rparr>\<rparr>),
      \<lparr>gseed = 0, gpos = 1000002\<rparr>)"
    by (simp add: PFUtils_init_def example_runtime_def example_config_def example_tokenizer_def
        example_utils_def example_table_def manual_seed_def Let_def case_prod_beta
        example_randperm_snd example_default_generator_def)
  have hash: "seeding (config example_utils) = ''hash''" "0 < ngram (config example_utils)"
    "0 < vocab_size (generation_tokenizer (config example_utils))"
    by (simp_all add: example_defs)
  obtain sl g where gs:
    "get_scores_by_t example_runtime example_utils [''abcdabcdab''] ''v2'' None 0 =
       Inr (sl, example_utils\<lparr>rng := g\<rparr>)"
    using texts_loop_hash_total [OF hash(1,2)] unfolding get_scores_by_t_tokens by blast
  obtain sl' g' where gs':
    "get_scores_by_t example_runtime example_utils [''abcdabcdab''] ''none'' None 0 =
       Inr (sl', example_utils\<lparr>rng := g'\<rparr>)"
    using texts_loop_hash_total [OF hash(1,2)] unfolding get_scores_by_t_tokens by blast
  obtain d where "detect_watermark example_runtime example_utils [''abcdabcdab''] (1 / 100) ''none'' None = Inr d"
    using detect_returns_under_hash_seeding [OF hash] by blast
  with gs' obtain sc th where dl:
    "detect_locals example_runtime example_utils [''abcdabcdab''] (1 / 100) ''none'' None =
       Inr (sc, th, example_utils\<lparr>rng := g'\<rparr>)"
    by (auto simp: detect_watermark_def detect_locals_def Let_def split: sum.splits list.splits)
  note inst = table_is_drawn_from_default_generator [OF example_init h2,
      where texts = "[''abcdabcdab'']" and ntoks_max = None and alpha = "1 / 100"
        and logits = "[[0, 0, 0, 0]]" and ngram_tokens = "[[1, 2, 3, 0]]"
        and temperature = 1 and top_p = 1 and next_token = "[0]"
        and ?u3.0 = "example_utils\<lparr>rng := \<lparr>gseed = 4481735200407599061, gpos = 4\<rparr>\<rparr>"]
  show ?thesis
    using example_init h2 example_sampling_reseeds
      inst [where scoring_method = "''v2''" and payload_max = 0 and score_lists = sl
             and ?u1.0 = "example_utils\<lparr>rng := g\<rparr>"]
      inst [where scoring_method = "''none''" and ?score0.0 = sc and threshold = th
             and ?u2.0 = "example_utils\<lparr>rng := g'\<rparr>"]
    by (simp add: gs dl)
qed

text \<open>
  The claim as stated fails: a second construction with the same configuration, in the
  process where the first has advanced the default generator, gets another table, and
  the two instances hash the same integer differently.
\<close>

theorem second_construction_counterexample:
  "PFUtils_init example_runtime example_config example_default_generator =
     (Inr example_utils, \<lparr>gseed = 0, gpos = 1000002\<rparr>) \<and>
   PFUtils_init example_runtime example_config \<lparr>gseed = 0, gpos = 1000002\<rparr> =
     (Inr example_second_utils, \<lparr>gseed = 0, gpos = 2000004\<rparr>) \<and>
   hashtable example_utils \<noteq> hashtable example_second_utils \<and>
   hashint example_utils (LongTensor [0]) = Inr (LongTensor [0]) \<and>
   hashint example_second_utils (LongTensor [0]) = Inr (LongTensor [1000002])"
proof -
  have "hashtable example_utils ! 0 \<noteq> hashtable example_second_utils ! 0"
    by (simp add: example_utils_def example_second_utils_def tables0)
  then have "hashtable example_utils \<noteq> hashtable example_second_utils" by metis
  moreover have "hashint example_utils (LongTensor [0]) = Inr (LongTensor [0])"
    by (simp add: hashint_def example_utils_def tables0 table_lengths)
  moreover have "hashint example_second_utils (LongTensor [0]) = Inr (LongTensor [1000002])"
    by (simp add: hashint_def example_utils_def example_second_utils_def tables0 table_lengths)
  ultimately show ?thesis using example_init example_init2 by simp
qed

end
